theory Spec2Isabelle
  imports Main "HOL-Library.Word" "HOL-Library.AList"
begin

unbundle bit_operations_syntax

section \<open>Data model (data\_type.go)\<close>

text \<open>
  \<^verbatim>\<open>type Op uint8\<close> with the four constants \<^verbatim>\<open>Create, Write, Remove, Chmod\<close>.
\<close>

datatype Op = Create | Write | Remove | Chmod

text \<open>
  \<^verbatim>\<open>os.FileMode\<close> is a \<^verbatim>\<open>uint32\<close>; the type bits used by the program are
  \<^verbatim>\<open>os.ModeDir = 1 << 31\<close> and \<^verbatim>\<open>os.ModeSymlink = 1 << 27\<close>.
\<close>

type_synonym FileMode = "32 word"

definition ModeDir :: FileMode where
  "ModeDir = push_bit 31 1"

definition ModeSymlink :: FileMode where
  "ModeSymlink = push_bit 27 1"

text \<open>
  \<^verbatim>\<open>os.FileInfo\<close>: the accessors the program reads. The modification time is a number
  of nanoseconds; \<^verbatim>\<open>IsDir()\<close> is derived from the mode, as \<^verbatim>\<open>os\<close> does for the
  result of a stat call.
\<close>

record FileInfo =
  Name :: string
  Size :: int
  Mode :: FileMode
  ModTime :: int

definition IsDir :: "FileInfo \<Rightarrow> bool" where
  "IsDir fi = (Mode fi AND ModeDir \<noteq> 0)"

definition IsSymlink :: "FileInfo \<Rightarrow> bool" where
  "IsSymlink fi = (Mode fi AND ModeSymlink \<noteq> 0)"

text \<open>\<^verbatim>\<open>type Event struct { Op; Path string; os.FileInfo }\<close>\<close>

datatype Event = Event (EventOp: Op) (EventPath: string) (EventInfo: FileInfo)

text \<open>
  \<^verbatim>\<open>type FileNode struct\<close>. \<^verbatim>\<open>Children\<close> is a \<^verbatim>\<open>map[string]*FileNode\<close>: an
  association list with at most one entry per key, whose values may be \<^verbatim>\<open>nil\<close>
  (\<open>None\<close>). Go iterates a map in an unspecified order; the list order is the one
  order the model uses.
\<close>

datatype FileNode = FileNode
  (Path: string)
  (Info: FileInfo)
  (ignored: bool)
  (recursive: bool)
  (Children: "(string \<times> FileNode option) list")

definition newNode :: "string \<Rightarrow> FileInfo \<Rightarrow> bool \<Rightarrow> bool \<Rightarrow> FileNode" where
  "newNode path info recursive' ignored' =
     FileNode path info (ignored' \<or> IsSymlink info) recursive' []"

section \<open>The operating system and the standard library\<close>

datatype error =
    ErrDurationTooShort
  | ErrWatcherRunning
  | ErrWatchedFileDeleted
  | ErrWatchSymlink
  | OSError string
  | NilMapPanic
  | NilPointerPanic

text \<open>
  The file system is what the program sees through \<^verbatim>\<open>filepath.Abs\<close>,
  \<^verbatim>\<open>os.Lstat\<close> and \<^verbatim>\<open>ioutil.ReadDir\<close>; it is fixed for the duration of one call.
\<close>

record OS =
  Abs :: "string \<Rightarrow> error + string"
  Lstat :: "string \<Rightarrow> error + FileInfo"
  ReadDir :: "string \<Rightarrow> error + FileInfo list"

text \<open>
  \<^verbatim>\<open>filepath.Join(dir, name)\<close> for a cleaned directory path and one entry name, the
  only way the program calls it: the separator is added unless \<open>dir\<close> ends in one.
\<close>

definition Join :: "string \<Rightarrow> string \<Rightarrow> string" where
  "Join dir name' =
     (if dir = [] then name'
      else if last dir = CHR ''/'' then dir @ name'
      else dir @ ''/'' @ name')"

text \<open>\<^verbatim>\<open>filepath.Base\<close>: the last element of the path, after stripping trailing slashes.\<close>

definition Base :: "string \<Rightarrow> string" where
  "Base path =
     (if path = [] then ''.''
      else let p = rev (dropWhile (\<lambda>c. c = CHR ''/'') (rev path))
           in if p = [] then ''/''
              else rev (takeWhile (\<lambda>c. c \<noteq> CHR ''/'') (rev p)))"

definition HasPrefix :: "string \<Rightarrow> string \<Rightarrow> bool" where
  "HasPrefix s pre = (take (length pre) s = pre)"

text \<open>The non-Windows \<^verbatim>\<open>isHiddenFile\<close>; its error is always \<^verbatim>\<open>nil\<close>.\<close>

definition isHiddenFile :: "string \<Rightarrow> error + bool" where
  "isHiddenFile path = Inr (HasPrefix (Base path) ''.'')"

text \<open>
  A compiled \<^verbatim>\<open>*regexp.Regexp\<close> is used only through \<^verbatim>\<open>MatchString\<close>, so it is
  represented by the language it accepts.
\<close>

type_synonym Regexp = "string \<Rightarrow> bool"

definition MatchString :: "Regexp \<Rightarrow> string \<Rightarrow> bool" where
  "MatchString reg s = reg s"

section \<open>The watcher (GoWatcher)\<close>

text \<open>
  The fields protected by \<^verbatim>\<open>mu\<close>. The channels are modelled per polling cycle (see
  \<open>Loop\<close> below). \<^verbatim>\<open>ops\<close> is a \<^verbatim>\<open>map[Op]struct{}\<close>, that is a set.
  \<^verbatim>\<open>fileTrees\<close> is \<open>None\<close> when the map is \<^verbatim>\<open>nil\<close> (after \<^verbatim>\<open>Close\<close>) and \<open>Some\<close> of its
  entries otherwise: \<^verbatim>\<open>New\<close> makes an empty map.
\<close>

record GoWatcher =
  running :: bool
  fileTrees :: "(string \<times> FileNode option) list option"
  nameFilters :: "Regexp list"
  nameIgnores :: "Regexp list"
  pathFilters :: "Regexp list"
  pathIgnores :: "Regexp list"
  ops :: "Op set"
  ignoreHidden :: bool
  maxEvents :: int

definition New :: GoWatcher where
  "New = \<lparr> running = False, fileTrees = Some [], nameFilters = [], nameIgnores = [],
           pathFilters = [], pathIgnores = [], ops = {}, ignoreHidden = False,
           maxEvents = 0 \<rparr>"

text \<open>
  What a lookup in \<^verbatim>\<open>w.fileTrees\<close> or a \<^verbatim>\<open>range\<close> over it sees: a \<^verbatim>\<open>nil\<close> map reads
  as an empty one. Only an assignment to an entry of a \<^verbatim>\<open>nil\<close> map panics.
\<close>

definition roots :: "GoWatcher \<Rightarrow> (string \<times> FileNode option) list" where
  "roots w = (case fileTrees w of None \<Rightarrow> [] | Some trees \<Rightarrow> trees)"

text \<open>
  The loop \<^verbatim>\<open>for _, reg := range regs { if reg.MatchString(s) { return true } }\<close>:
  \<open>True\<close> when the loop returns, \<open>False\<close> when it falls through.
\<close>

fun matchLoop :: "Regexp list \<Rightarrow> string \<Rightarrow> bool" where
  "matchLoop [] s = False"
| "matchLoop (reg # regs) s = (if MatchString reg s then True else matchLoop regs s)"

definition shouldIgnore :: "GoWatcher \<Rightarrow> string \<Rightarrow> string \<Rightarrow> bool" where
  "shouldIgnore w name' path =
     (if length (nameIgnores w) = 0 \<and> length (pathIgnores w) = 0 then False
      else if matchLoop (nameIgnores w) name' then True
      else if matchLoop (pathIgnores w) path then True
      else False)"

definition shouldNotice :: "GoWatcher \<Rightarrow> string \<Rightarrow> string \<Rightarrow> bool" where
  "shouldNotice w name' path =
     (if length (nameFilters w) = 0 \<and> length (pathFilters w) = 0 then True
      else if matchLoop (nameFilters w) name' then True
      else if matchLoop (pathFilters w) path then True
      else False)"

text \<open>
  The test \<^verbatim>\<open>w.shouldIgnore(name, path) || (w.ignoreHidden && isHidden)\<close> of
  \<^verbatim>\<open>AddPath\<close> and \<^verbatim>\<open>traverseTree\<close>, after \<^verbatim>\<open>isHiddenFile\<close> has returned.
\<close>

definition suppressed :: "GoWatcher \<Rightarrow> string \<Rightarrow> string \<Rightarrow> bool \<Rightarrow> bool" where
  "suppressed w name' path isHidden = (shouldIgnore w name' path \<or> (ignoreHidden w \<and> isHidden))"

section \<open>Tree builder (traverseTree) and AddPath\<close>

definition setChildren :: "FileNode \<Rightarrow> (string \<times> FileNode option) list \<Rightarrow> FileNode" where
  "setChildren node ch = FileNode (Path node) (Info node) (ignored node) (recursive node) ch"

definition setInfo :: "FileNode \<Rightarrow> FileInfo \<Rightarrow> FileNode" where
  "setInfo node info = FileNode (Path node) info (ignored node) (recursive node) (Children node)"

definition setRecursive :: "FileNode \<Rightarrow> bool \<Rightarrow> FileNode" where
  "setRecursive node r = FileNode (Path node) (Info node) (ignored node) r (Children node)"

text \<open>
  The loop over \<^verbatim>\<open>infoList\<close> in \<^verbatim>\<open>traverseTree\<close>. \<open>rec\<close> is the recursive call
  \<^verbatim>\<open>w.traverseTree(path, true)\<close>, whose error is discarded. \<open>None\<close>: the recursion
  did not return within the fuel; \<open>Some (Inl err)\<close>: \<^verbatim>\<open>return node, err\<close>;
  \<open>Some (Inr childMap)\<close>: the loop ran to its end.
\<close>

fun buildLoop ::
  "(string \<Rightarrow> bool \<Rightarrow> (FileNode option \<times> error option) option) \<Rightarrow> GoWatcher \<Rightarrow> string \<Rightarrow> bool \<Rightarrow>
   FileInfo list \<Rightarrow> (string \<times> FileNode option) list \<Rightarrow>
   (error + (string \<times> FileNode option) list) option" where
  "buildLoop rec w dir recursive' [] childMap = Some (Inr childMap)"
| "buildLoop rec w dir recursive' (info # rest) childMap =
     (let name' = Name info; path = Join dir name' in
      case isHiddenFile path of
        Inl err \<Rightarrow> Some (Inl err)
      | Inr isHidden \<Rightarrow>
          (let shouldIgnore' = shouldIgnore w name' path in
           if suppressed w name' path isHidden
           then buildLoop rec w dir recursive' rest childMap
           else if \<not> recursive'
           then buildLoop rec w dir recursive' rest
                  (AList.update name' (Some (newNode path info False shouldIgnore')) childMap)
           else if \<not> shouldIgnore'
           then (case rec path True of
                   None \<Rightarrow> None
                 | Some (child, _) \<Rightarrow>
                     buildLoop rec w dir recursive' rest (AList.update name' child childMap))
           else buildLoop rec w dir recursive' rest childMap))"

text \<open>
  \<^verbatim>\<open>traverseTree\<close> descends the live directory tree, so it is defined with fuel: one
  unit per nested call. The result is the pair \<^verbatim>\<open>(node, err)\<close> of the Go function.
\<close>

primrec traverseTree ::
  "nat \<Rightarrow> GoWatcher \<Rightarrow> OS \<Rightarrow> string \<Rightarrow> bool \<Rightarrow> (FileNode option \<times> error option) option" where
  "traverseTree 0 w os path recursive' = None"
| "traverseTree (Suc n) w os path recursive' =
     (case Lstat os path of
        Inl err \<Rightarrow> Some (None, Some err)
      | Inr stat \<Rightarrow>
          (let node = newNode path stat recursive' (shouldIgnore w (Name stat) path) in
           if \<not> IsDir stat \<or> ignored node then Some (Some node, None)
           else case ReadDir os path of
                  Inl err \<Rightarrow> Some (Some node, Some err)
                | Inr infoList \<Rightarrow>
                    (case buildLoop (traverseTree n w os) w path recursive' infoList [] of
                       None \<Rightarrow> None
                     | Some (Inl err) \<Rightarrow> Some (Some node, Some err)
                     | Some (Inr childMap) \<Rightarrow> Some (Some (setChildren node childMap), None))))"

text \<open>
  \<^verbatim>\<open>AddPath\<close> returns its error (\<open>None\<close> is \<^verbatim>\<open>nil\<close>) and the watcher after the
  call. \<^verbatim>\<open>fileNode.recursive = true\<close> is executed before the error of
  \<^verbatim>\<open>traverseTree\<close> is looked at, and dereferences \<^verbatim>\<open>fileNode\<close>. The last
  statement, \<^verbatim>\<open>w.fileTrees[path] = fileNode\<close>, panics when the map is \<^verbatim>\<open>nil\<close>. The two
  panics are the results \<open>NilPointerPanic\<close> and \<open>NilMapPanic\<close>; the watcher is as it was.
\<close>

definition AddPath ::
  "nat \<Rightarrow> GoWatcher \<Rightarrow> OS \<Rightarrow> string \<Rightarrow> bool \<Rightarrow> (error option \<times> GoWatcher) option" where
  "AddPath fuel w os path0 recursive' =
     (case Abs os path0 of
        Inl err \<Rightarrow> Some (Some err, w)
      | Inr path \<Rightarrow>
     (case Lstat os path of
        Inl err \<Rightarrow> Some (Some err, w)
      | Inr stat \<Rightarrow>
          if IsSymlink stat then Some (Some ErrWatchSymlink, w)
          else if map_of (roots w) path \<noteq> None then Some (None, w)
          else (case isHiddenFile path of
                  Inl err \<Rightarrow> Some (Some err, w)
                | Inr isHidden \<Rightarrow>
                    if suppressed w (Name stat) path isHidden
                    then Some (None, w)
                    else (case traverseTree fuel w os path recursive' of
                            None \<Rightarrow> None
                          | Some (None, err) \<Rightarrow> Some (Some NilPointerPanic, w)
                          | Some (Some fileNode, Some err) \<Rightarrow> Some (Some err, w)
                          | Some (Some fileNode, None) \<Rightarrow>
                              (case fileTrees w of
                                 None \<Rightarrow> Some (Some NilMapPanic, w)
                               | Some trees \<Rightarrow>
                                   Some (None, w\<lparr>fileTrees :=
                                     Some (AList.update path (Some (setRecursive fileNode True)) trees)\<rparr>))))))"

text \<open>
  \<^verbatim>\<open>Remove\<close> and \<^verbatim>\<open>Close\<close> (the state they leave). \<^verbatim>\<open>delete\<close> on a \<^verbatim>\<open>nil\<close> map
  does nothing; \<^verbatim>\<open>Close\<close> of a running watcher sets \<^verbatim>\<open>w.fileTrees = nil\<close>.
\<close>

definition RemovePath :: "GoWatcher \<Rightarrow> OS \<Rightarrow> string \<Rightarrow> error option \<times> GoWatcher" where
  "RemovePath w os path0 =
     (case Abs os path0 of
        Inl err \<Rightarrow> (Some err, w)
      | Inr path \<Rightarrow> (None, w\<lparr>fileTrees := map_option (AList.delete path) (fileTrees w)\<rparr>))"

definition Close :: "GoWatcher \<Rightarrow> GoWatcher" where
  "Close w = (if \<not> running w then w else w\<lparr>running := False, fileTrees := None\<rparr>)"

text \<open>
  \<^verbatim>\<open>FileNode.retrieveAllNodes\<close> writes \<^verbatim>\<open>files[node.Path] = *node\<close> and recurses
  into every child; a \<^verbatim>\<open>nil\<close> child is dereferenced (\<open>None\<close>).
\<close>

fun retrieveAllNodes :: "FileNode \<Rightarrow> (string \<times> FileNode) list \<Rightarrow> (string \<times> FileNode) list option"
  and retrieveChildren ::
    "(string \<times> FileNode option) list \<Rightarrow> (string \<times> FileNode) list \<Rightarrow> (string \<times> FileNode) list option" where
  "retrieveAllNodes (FileNode p i ig r ch) files =
     retrieveChildren ch (AList.update p (FileNode p i ig r ch) files)"
| "retrieveChildren [] files = Some files"
| "retrieveChildren ((k, None) # rest) files = None"
| "retrieveChildren ((k, Some v) # rest) files =
     (case retrieveAllNodes v files of
        None \<Rightarrow> None
      | Some files' \<Rightarrow> retrieveChildren rest files')"

text \<open>\<^verbatim>\<open>GoWatcher.RetrieveAllNodes\<close>: the union of the roots' listings.\<close>

fun RetrieveRoots ::
  "(string \<times> FileNode option) list \<Rightarrow> (string \<times> FileNode) list \<Rightarrow> (string \<times> FileNode) list option" where
  "RetrieveRoots [] files = Some files"
| "RetrieveRoots ((k, None) # rest) files = None"
| "RetrieveRoots ((k, Some v) # rest) files =
     (case retrieveAllNodes v [] of
        None \<Rightarrow> None
      | Some c \<Rightarrow> RetrieveRoots rest (fold (\<lambda>(k, v). AList.update k v) c files))"

definition RetrieveAllNodes :: "GoWatcher \<Rightarrow> (string \<times> FileNode) list option" where
  "RetrieveAllNodes w = RetrieveRoots (roots w) []"

section \<open>The polling cycle (Start, pollEvents, pollNodeEvent)\<close>

text \<open>
  The synchronous part of \<^verbatim>\<open>Start\<close>: the two rejections, or the state with which
  the call enters its polling loop (it returns only after \<^verbatim>\<open>Close\<close>).
  \<^verbatim>\<open>time.Duration\<close> counts nanoseconds.
\<close>

definition Start :: "GoWatcher \<Rightarrow> int \<Rightarrow> error option \<times> GoWatcher" where
  "Start w d =
     (if d < 1 then (Some ErrDurationTooShort, w)
      else if running w then (Some ErrWatcherRunning, w)
      else (None, w\<lparr>running := True\<rparr>))"

text \<open>
  One cycle of the loop in \<^verbatim>\<open>Start\<close> owns \<^verbatim>\<open>numEvents\<close>, the channel
  \<^verbatim>\<open>cancel\<close> (closed or not) and what it has sent on \<^verbatim>\<open>w.Event\<close>. The
  field \<open>received\<close> is the history of the channel \<^verbatim>\<open>evt\<close>: every event the diff
  has handed over in this cycle, before the filters of the receiving branch.
\<close>

record Loop =
  numEvents :: int
  sent :: "Event list"
  cancelled :: bool
  received :: "Event list"

text \<open>
  The branch \<^verbatim>\<open>case event := <-evt\<close>. The channel \<^verbatim>\<open>evt\<close> is unbuffered, so each
  send of the diff is one run of this branch. After \<^verbatim>\<open>close(cancel); break inner\<close>
  nothing receives from \<^verbatim>\<open>evt\<close> any more.
\<close>

definition forward :: "GoWatcher \<Rightarrow> Event \<Rightarrow> Loop \<Rightarrow> Loop" where
  "forward w event s0 =
     (let s = s0\<lparr>received := received s0 @ [event]\<rparr> in
      if ops w \<noteq> {} \<and> EventOp event \<notin> ops w then s
      else if \<not> shouldNotice w (Name (EventInfo event)) (EventPath event) then s
      else let n = numEvents s + 1 in
           if maxEvents w > 0 \<and> n > maxEvents w
           then s\<lparr>numEvents := n, cancelled := True\<rparr>
           else s\<lparr>numEvents := n, sent := sent s @ [event]\<rparr>)"

text \<open>
  How a call of the diff ends: it returns, or it never does. \<open>Blocked\<close>: a send on
  \<^verbatim>\<open>evt\<close> outside a \<^verbatim>\<open>select\<close> after \<^verbatim>\<open>cancel\<close> was closed (no receiver is
  left); \<open>NilPanic\<close>: a \<^verbatim>\<open>nil\<close> child is dereferenced; \<open>OutOfFuel\<close>: the recursion
  is deeper than the fuel.
\<close>

datatype stop = Blocked | NilPanic | OutOfFuel

datatype 'a outcome = Return 'a Loop | Abort stop Loop

type_synonym children = "(string \<times> FileNode option) list"

type_synonym poll = "FileNode option \<Rightarrow> Loop \<Rightarrow> FileNode option outcome"

text \<open>
  The first loop of \<^verbatim>\<open>pollNodeEvent\<close>, over the live entries. \<open>Inl\<close>: the loop ran
  to its end with these children and this \<^verbatim>\<open>infoMap\<close>; \<open>Inr\<close>: \<^verbatim>\<open>return node\<close>
  with these children. The pointer \<^verbatim>\<open>newChild\<close> stays in the map whatever the
  recursive call returns; the call updates the node it points to.
\<close>

fun listLoop ::
  "poll \<Rightarrow> GoWatcher \<Rightarrow> string \<Rightarrow> bool \<Rightarrow> FileInfo list \<Rightarrow> children \<Rightarrow>
   (string \<times> FileInfo) list \<Rightarrow> Loop \<Rightarrow> (children \<times> (string \<times> FileInfo) list + children) outcome" where
  "listLoop rec w dir recursive' [] ch infoMap s = Return (Inl (ch, infoMap)) s"
| "listLoop rec w dir recursive' (info # rest) ch infoMap s =
     (let name' = Name info; path = Join dir name' in
      case isHiddenFile path of
        Inl err \<Rightarrow> Return (Inr ch) s
      | Inr isHidden \<Rightarrow>
          if ignoreHidden w \<and> isHidden then listLoop rec w dir recursive' rest ch infoMap s
          else (case map_of ch name' of
                  Some None \<Rightarrow> Abort NilPanic s
                | Some (Some child) \<Rightarrow>
                    if ignored child then listLoop rec w dir recursive' rest ch infoMap s
                    else (case rec (Some child) s of
                            Abort a s' \<Rightarrow> Abort a s'
                          | Return r s' \<Rightarrow>
                              listLoop rec w dir recursive' rest (AList.update name' r ch)
                                (AList.update name' info infoMap) s')
                | None \<Rightarrow>
                    (let newChild = newNode path info recursive' (shouldIgnore w name' path);
                         ch1 = AList.update name' (Some newChild) ch in
                     if ignored newChild then listLoop rec w dir recursive' rest ch1 infoMap s
                     else if cancelled s then Return (Inr ch1) s
                     else (case rec (Some newChild) (forward w (Event Create path info) s) of
                             Abort a s' \<Rightarrow> Abort a s'
                           | Return r s' \<Rightarrow>
                               listLoop rec w dir recursive' rest
                                 (AList.update name'
                                    (Some (case r of None \<Rightarrow> newChild | Some c \<Rightarrow> c)) ch1)
                                 (AList.update name' info infoMap) s'))))"

text \<open>
  The second loop, over the entries of \<^verbatim>\<open>node.Children\<close> as they are when it
  starts. Both ways out return the node, with the children given.
\<close>

fun examineLoop ::
  "poll \<Rightarrow> GoWatcher \<Rightarrow> children \<Rightarrow> children \<Rightarrow> (string \<times> FileInfo) list \<Rightarrow> Loop \<Rightarrow>
   children outcome" where
  "examineLoop rec w [] ch infoMap s = Return ch s"
| "examineLoop rec w ((k, None) # rest) ch infoMap s =
     examineLoop rec w rest (AList.delete k ch) infoMap s"
| "examineLoop rec w ((k, Some childNode) # rest) ch infoMap s =
     (if map_of infoMap k \<noteq> None
      then (case rec (Some childNode) s of
              Abort a s' \<Rightarrow> Abort a s'
            | Return r s' \<Rightarrow>
                examineLoop rec w rest (AList.update k r ch) (AList.delete k infoMap) s')
      else (let ch1 = AList.delete k ch in
            if ignored childNode then examineLoop rec w rest ch1 infoMap s
            else if cancelled s then Return ch1 s
            else examineLoop rec w rest ch1 infoMap
                   (forward w (Event Remove (Path childNode) (Info childNode)) s)))"

text \<open>
  The comparison of the old and the new \<^verbatim>\<open>FileInfo\<close> with its two
  \<^verbatim>\<open>select\<close> statements. \<open>Inl\<close>: \<^verbatim>\<open>case <-cancel: return node\<close> was taken;
  \<open>Inr\<close>: the function goes on to \<^verbatim>\<open>node.Info = newInfo\<close>.
\<close>

definition compareInfo :: "GoWatcher \<Rightarrow> FileNode \<Rightarrow> FileInfo \<Rightarrow> Loop \<Rightarrow> Loop + Loop" where
  "compareInfo w node newInfo s =
     (if ModTime (Info node) \<noteq> ModTime newInfo \<and> cancelled s then Inl s
      else
      (let s1 = (if ModTime (Info node) \<noteq> ModTime newInfo
                 then forward w (Event Write (Path node) newInfo) s else s) in
       if Mode (Info node) \<noteq> Mode newInfo \<and> cancelled s1 then Inl s1
       else Inr (if Mode (Info node) \<noteq> Mode newInfo
                 then forward w (Event Chmod (Path node) newInfo) s1 else s1)))"

text \<open>The part of \<^verbatim>\<open>pollNodeEvent\<close> after \<^verbatim>\<open>// It's a directory.\<close>\<close>

definition pollDir :: "poll \<Rightarrow> GoWatcher \<Rightarrow> OS \<Rightarrow> FileNode \<Rightarrow> Loop \<Rightarrow> FileNode option outcome" where
  "pollDir rec w os node s =
     (case ReadDir os (Path node) of
        Inl err \<Rightarrow> Return (Some node) s
      | Inr infoList \<Rightarrow>
          (case listLoop rec w (Path node) (recursive node) infoList (Children node) [] s of
             Abort a s' \<Rightarrow> Abort a s'
           | Return (Inr ch) s' \<Rightarrow> Return (Some (setChildren node ch)) s'
           | Return (Inl (ch, infoMap)) s' \<Rightarrow>
               (case examineLoop rec w ch ch infoMap s' of
                  Abort a s'' \<Rightarrow> Abort a s''
                | Return ch' s'' \<Rightarrow> Return (Some (setChildren node ch')) s'')))"

text \<open>
  The body of \<^verbatim>\<open>pollNodeEvent\<close>; \<open>rec\<close> is the function itself, one level down.
  The \<^verbatim>\<open>Remove\<close> event of a vanished path is sent outside a \<^verbatim>\<open>select\<close>.
\<close>

definition pollBody :: "poll \<Rightarrow> GoWatcher \<Rightarrow> OS \<Rightarrow> poll" where
  "pollBody rec w os nodep s =
     (case nodep of
        None \<Rightarrow> Return None s
      | Some node \<Rightarrow>
          if ignored node then Return (Some node) s
          else (case Lstat os (Path node) of
                  Inl err \<Rightarrow>
                    if cancelled s then Abort Blocked s
                    else Return None (forward w (Event Remove (Path node) (Info node)) s)
                | Inr newInfo \<Rightarrow>
                    (case compareInfo w node newInfo s of
                       Inl s' \<Rightarrow> Return (Some node) s'
                     | Inr s' \<Rightarrow>
                         (let node1 = setInfo node newInfo in
                          if \<not> IsDir newInfo \<or> \<not> recursive node1 then Return (Some node1) s'
                          else pollDir rec w os node1 s'))))"

text \<open>
  \<^verbatim>\<open>pollNodeEvent\<close> descends the snapshot and, for new entries, the live directory
  tree: it is defined with fuel, one unit per nested call.
\<close>

primrec pollNodeEvent :: "nat \<Rightarrow> GoWatcher \<Rightarrow> OS \<Rightarrow> poll" where
  "pollNodeEvent 0 w os = (\<lambda>nodep s. Abort OutOfFuel s)"
| "pollNodeEvent (Suc n) w os = pollBody (pollNodeEvent n w os) w os"

text \<open>
  \<^verbatim>\<open>pollEvents\<close>: every root is replaced by its diff. When a diff does not return,
  neither does \<^verbatim>\<open>pollEvents\<close>, and \<^verbatim>\<open>w.mu\<close> stays locked. The loop over a \<^verbatim>\<open>nil\<close>
  map has no iteration and leaves it \<^verbatim>\<open>nil\<close>.
\<close>

fun rootsLoop :: "poll \<Rightarrow> children \<Rightarrow> children \<Rightarrow> Loop \<Rightarrow> children outcome" where
  "rootsLoop rec [] trees s = Return trees s"
| "rootsLoop rec ((k, v) # rest) trees s =
     (case rec v s of
        Abort a s' \<Rightarrow> Abort a s'
      | Return r s' \<Rightarrow> rootsLoop rec rest (AList.update k r trees) s')"

definition pollEvents :: "nat \<Rightarrow> GoWatcher \<Rightarrow> OS \<Rightarrow> Loop \<Rightarrow> GoWatcher outcome" where
  "pollEvents fuel w os s =
     (case rootsLoop (pollNodeEvent fuel w os) (roots w) (roots w) s of
        Abort a s' \<Rightarrow> Abort a s'
      | Return trees s' \<Rightarrow> Return (w\<lparr>fileTrees := map_option (\<lambda>old. trees) (fileTrees w)\<rparr>) s')"

text \<open>
  One iteration of the outer loop of \<^verbatim>\<open>Start\<close>: fresh \<^verbatim>\<open>numEvents\<close> and
  \<^verbatim>\<open>cancel\<close>, then the diff of all roots against the receiving branch.
\<close>

definition newCycle :: Loop where
  "newCycle = \<lparr> numEvents = 0, sent = [], cancelled = False, received = [] \<rparr>"

definition pollCycle :: "nat \<Rightarrow> GoWatcher \<Rightarrow> OS \<Rightarrow> GoWatcher outcome" where
  "pollCycle fuel w os = pollEvents fuel w os newCycle"

text \<open>The loop state an outcome carries.\<close>

fun loopOf :: "'a outcome \<Rightarrow> Loop" where
  "loopOf (Return x s) = s"
| "loopOf (Abort a s) = s"

section \<open>Predicates of the statements\<close>

text \<open>A property of every node of a snapshot tree (\<^verbatim>\<open>nil\<close> children have no node).\<close>

fun allNodes :: "(FileNode \<Rightarrow> bool) \<Rightarrow> FileNode \<Rightarrow> bool"
  and allChildren :: "(FileNode \<Rightarrow> bool) \<Rightarrow> children \<Rightarrow> bool" where
  "allNodes P (FileNode p i ig r ch) = (P (FileNode p i ig r ch) \<and> allChildren P ch)"
| "allChildren P [] = True"
| "allChildren P ((k, None) # rest) = allChildren P rest"
| "allChildren P ((k, Some n) # rest) = (allNodes P n \<and> allChildren P rest)"

text \<open>The invariant of the data model: an ignored node has no children, at every depth.\<close>

definition ignoredOk :: "FileNode \<Rightarrow> bool" where
  "ignoredOk = allNodes (\<lambda>n. ignored n \<longrightarrow> Children n = [])"


text \<open>The test \<^verbatim>\<open>w.ignoreHidden && isHidden\<close> of the first loop of the diff.\<close>

definition hiddenSkip :: "GoWatcher \<Rightarrow> string \<Rightarrow> bool" where
  "hiddenSkip w path = (ignoreHidden w \<and> HasPrefix (Base path) ''.'')"

text \<open>\<^verbatim>\<open>newNode(path, info, node.recursive, w.shouldIgnore(name, path))\<close> for a live entry.\<close>

definition newChildOf :: "GoWatcher \<Rightarrow> string \<Rightarrow> bool \<Rightarrow> FileInfo \<Rightarrow> FileNode" where
  "newChildOf w dir r info =
     newNode (Join dir (Name info)) info r (shouldIgnore w (Name info) (Join dir (Name info)))"

text \<open>A diff function keeps a property of all nodes when the node it returns has it.\<close>

definition keepsAll :: "(FileNode \<Rightarrow> bool) \<Rightarrow> poll \<Rightarrow> bool" where
  "keepsAll P rec =
     (\<forall>np s r s'. (\<forall>c. np = Some c \<longrightarrow> allNodes P c) \<longrightarrow>
                   rec np s = Return (Some r) s' \<longrightarrow> allNodes P r)"

text \<open>
  A node property that survives what the diff does to a node that is not ignored: a new
  \<^verbatim>\<open>Info\<close>, other children, and the creation of a child with the node's recursive flag.
\<close>

definition stableP :: "(FileNode \<Rightarrow> bool) \<Rightarrow> bool" where
  "stableP P = (\<forall>n. P n \<longrightarrow> \<not> ignored n \<longrightarrow>
      (\<forall>i. P (setInfo n i)) \<and> (\<forall>ch. P (setChildren n ch)) \<and>
      (\<forall>path info ig. P (newNode path info (recursive n) ig)))"

text \<open>The children with which the first loop ends or returns.\<close>

fun childrenOf :: "(children \<times> (string \<times> FileInfo) list + children) outcome \<Rightarrow> children option" where
  "childrenOf (Return (Inl (ch, im)) s) = Some ch"
| "childrenOf (Return (Inr ch) s) = Some ch"
| "childrenOf (Abort a s) = None"

text \<open>A diff function keeps a property of the receiving loop's state, however it ends.\<close>

definition keepsLoop :: "(Loop \<Rightarrow> bool) \<Rightarrow> ('a \<Rightarrow> Loop \<Rightarrow> 'b outcome) \<Rightarrow> bool" where
  "keepsLoop Q rec = (\<forall>x s. Q s \<longrightarrow> Q (loopOf (rec x s)))"

text \<open>The property holds after every send that happens before \<^verbatim>\<open>cancel\<close> is closed.\<close>

definition sendOk :: "GoWatcher \<Rightarrow> (Loop \<Rightarrow> bool) \<Rightarrow> bool" where
  "sendOk w Q = (\<forall>e s. Q s \<longrightarrow> \<not> cancelled s \<longrightarrow> Q (forward w e s))"

section \<open>Concrete data for the examples\<close>

definition fileMode :: FileMode where
  "fileMode = 420"

definition dirMode :: FileMode where
  "dirMode = ModeDir OR 493"

definition linkMode :: FileMode where
  "linkMode = ModeSymlink OR 511"

definition mkInfo :: "string \<Rightarrow> FileMode \<Rightarrow> int \<Rightarrow> FileInfo" where
  "mkInfo n m t = \<lparr> Name = n, Size = 0, Mode = m, ModTime = t \<rparr>"

definition reLit :: "string \<Rightarrow> Regexp" where
  "reLit lit = (\<lambda>s. s = lit)"

definition capInv :: "GoWatcher \<Rightarrow> Loop \<Rightarrow> bool" where
  "capInv w s = (int (length (sent s)) \<le> maxEvents w \<and>
                 (\<not> cancelled s \<longrightarrow> numEvents s = int (length (sent s))))"

definition exOS :: OS where
  "exOS = \<lparr> Abs = (\<lambda>p. Inr p),
     Lstat = (\<lambda>p. if p = ''/r'' then Inr (mkInfo ''r'' dirMode 1)
                  else if p = ''/r/a'' then Inr (mkInfo ''a'' fileMode 1)
                  else if p = ''/r/b'' then Inr (mkInfo ''b'' fileMode 1)
                  else Inl (OSError ''no such file or directory'')),
     ReadDir = (\<lambda>p. if p = ''/r'' then Inr [mkInfo ''a'' fileMode 1, mkInfo ''b'' fileMode 1]
                  else Inl (OSError ''not a directory'')) \<rparr>"

definition exOS2 :: OS where
  "exOS2 = \<lparr> Abs = (\<lambda>p. Inr p),
     Lstat = (\<lambda>p. if p = ''/r'' then Inr (mkInfo ''r'' dirMode 1)
                  else if p = ''/r/a'' then Inr (mkInfo ''a'' fileMode 2)
                  else if p = ''/r/b'' then Inr (mkInfo ''b'' fileMode 2)
                  else Inl (OSError ''no such file or directory'')),
     ReadDir = (\<lambda>p. if p = ''/r'' then Inr [mkInfo ''a'' fileMode 2, mkInfo ''b'' fileMode 2]
                  else Inl (OSError ''not a directory'')) \<rparr>"

definition exRoot :: FileNode where
  "exRoot = FileNode ''/r'' (mkInfo ''r'' dirMode 1) False True
     [(''a'', Some (FileNode ''/r/a'' (mkInfo ''a'' fileMode 1) False True [])),
      (''b'', Some (FileNode ''/r/b'' (mkInfo ''b'' fileMode 1) False True []))]"

definition exW :: GoWatcher where
  "exW = New\<lparr>fileTrees := Some [(''/r'', Some exRoot)]\<rparr>"

fun returns :: "'a outcome \<Rightarrow> bool" where
  "returns (Return x s) = True"
| "returns (Abort a s) = False"

definition rootsOk :: "GoWatcher \<Rightarrow> bool" where
  "rootsOk w = allChildren (\<lambda>n. ignored n \<longrightarrow> Children n = []) (roots w)"

definition exLink :: FileNode where
  "exLink = newNode ''/r/l'' (mkInfo ''l'' linkMode 1) True False"







definition exOSgone :: OS where
  "exOSgone = \<lparr> Abs = (\<lambda>p. Inr p),
     Lstat = (\<lambda>p. if p = ''/u'' then Inr (mkInfo ''u'' dirMode 1)
                  else if p = ''/l'' then Inr (mkInfo ''l'' linkMode 1)
                  else if p = ''/.h'' then Inr (mkInfo ''.h'' fileMode 1)
                  else Inl (OSError ''no such file or directory'')),
     ReadDir = (\<lambda>p. Inl (OSError ''permission denied'')) \<rparr>"

fun stopOf :: "'a outcome \<Rightarrow> stop option" where
  "stopOf (Return x s) = None"
| "stopOf (Abort a s) = Some a"

definition execMode :: FileMode where
  "execMode = 493"

definition exW2 :: GoWatcher where
  "exW2 = New\<lparr>maxEvents := 1,
     fileTrees := Some [(''/a'', Some (FileNode ''/a'' (mkInfo ''a'' fileMode 1) False True [])),
                        (''/b'', Some (FileNode ''/b'' (mkInfo ''b'' fileMode 1) False True []))]\<rparr>"

definition exOSrace :: OS where
  "exOSrace = \<lparr> Abs = (\<lambda>p. Inr p),
     Lstat = (\<lambda>p. if p = ''/a'' then Inr (mkInfo ''a'' execMode 2)
                  else Inl (OSError ''no such file or directory'')),
     ReadDir = (\<lambda>p. Inl (OSError ''not a directory'')) \<rparr>"

definition exOSrace' :: OS where
  "exOSrace' = \<lparr> Abs = (\<lambda>p. Inr p),
     Lstat = (\<lambda>p. if p = ''/a'' then Inr (mkInfo ''a'' execMode 2)
                  else if p = ''/b'' then Inr (mkInfo ''b'' fileMode 2)
                  else Inl (OSError ''no such file or directory'')),
     ReadDir = (\<lambda>p. Inl (OSError ''not a directory'')) \<rparr>"





section \<open>Filters\<close>

lemma matchLoop_iff: "matchLoop regs s \<longleftrightarrow> (\<exists>reg \<in> set regs. MatchString reg s)"
  by (induction regs) auto

text \<open>
  C9. An entry is suppressed exactly when it matches a name-exclude or a path-exclude
  pattern, or is hidden while \<open>ignoreHidden\<close> is set; it is surfaced exactly when both
  include lists are empty or it matches a name-include or a path-include pattern.
\<close>

theorem C9_filter_semantics:
  "(suppressed w name' path isHidden \<longleftrightarrow>
      (\<exists>reg \<in> set (nameIgnores w). MatchString reg name') \<or>
      (\<exists>reg \<in> set (pathIgnores w). MatchString reg path) \<or>
      (ignoreHidden w \<and> isHidden)) \<and>
   (shouldNotice w name' path \<longleftrightarrow>
      (nameFilters w = [] \<and> pathFilters w = []) \<or>
      (\<exists>reg \<in> set (nameFilters w). MatchString reg name') \<or>
      (\<exists>reg \<in> set (pathFilters w). MatchString reg path))"
  by (auto simp: suppressed_def shouldIgnore_def shouldNotice_def matchLoop_iff)

theorem C9_filter_semantics_witness:
  "suppressed (New\<lparr>nameIgnores := [reLit ''a.tmp'']\<rparr>) ''a.tmp'' ''/r/a.tmp'' False \<and>
   \<not> suppressed (New\<lparr>nameIgnores := [reLit ''a.tmp'']\<rparr>) ''b.txt'' ''/r/b.txt'' False \<and>
   \<not> shouldNotice (New\<lparr>pathFilters := [reLit ''/r/b.txt'']\<rparr>) ''a.tmp'' ''/r/a.tmp'' \<and>
   shouldNotice (New\<lparr>pathFilters := [reLit ''/r/b.txt'']\<rparr>) ''b.txt'' ''/r/b.txt''"
  using C9_filter_semantics [of "New\<lparr>nameIgnores := [reLit ''a.tmp'']\<rparr>" "''a.tmp''" "''/r/a.tmp''" False]
        C9_filter_semantics [of "New\<lparr>nameIgnores := [reLit ''a.tmp'']\<rparr>" "''b.txt''" "''/r/b.txt''" False]
        C9_filter_semantics [of "New\<lparr>pathFilters := [reLit ''/r/b.txt'']\<rparr>" "''a.tmp''" "''/r/a.tmp''" False]
        C9_filter_semantics [of "New\<lparr>pathFilters := [reLit ''/r/b.txt'']\<rparr>" "''b.txt''" "''/r/b.txt''" False]
  by (simp add: New_def reLit_def MatchString_def)

section \<open>Start\<close>

text \<open>
  C8. \<open>Start\<close> returns \<open>ErrDurationTooShort\<close> exactly when the interval is below one
  nanosecond; with a valid interval it returns \<open>ErrWatcherRunning\<close> when the watcher is
  already running; in both cases the watcher's state is the one before the call.
\<close>

theorem C8_start_errors:
  "(fst (Start w d) = Some ErrDurationTooShort \<longleftrightarrow> d < 1) \<and>
   (1 \<le> d \<and> running w \<longrightarrow> fst (Start w d) = Some ErrWatcherRunning) \<and>
   (fst (Start w d) = Some ErrDurationTooShort \<or> fst (Start w d) = Some ErrWatcherRunning
      \<longrightarrow> snd (Start w d) = w)"
  by (simp add: Start_def)

theorem C8_start_errors_witness:
  "fst (Start New 0) = Some ErrDurationTooShort \<and> snd (Start New 0) = New \<and>
   fst (Start (New\<lparr>running := True\<rparr>) 100) = Some ErrWatcherRunning \<and>
   snd (Start (New\<lparr>running := True\<rparr>) 100) = New\<lparr>running := True\<rparr> \<and>
   fst (Start New 100) \<noteq> Some ErrDurationTooShort"
  using C8_start_errors [of New 0] C8_start_errors [of "New\<lparr>running := True\<rparr>" 100]
        C8_start_errors [of New 100]
  by (simp add: New_def)

section \<open>Invariants of the diff\<close>

lemma in_update: "x \<in> set (AList.update k v ch) \<Longrightarrow> x = (k, v) \<or> x \<in> set ch"
  by (induction ch) (auto split: if_splits)

lemma in_delete: "x \<in> set (AList.delete k ch) \<Longrightarrow> x \<in> set ch"
  by (auto simp: AList.delete_eq)

lemma allChildren_iff: "allChildren P ch \<longleftrightarrow> (\<forall>k n. (k, Some n) \<in> set ch \<longrightarrow> allNodes P n)"
proof (induction ch)
  case Nil show ?case by simp
next
  case (Cons a ch)
  obtain k c where a: "a = (k, c)" by (cases a)
  show ?case using Cons by (cases c) (auto simp: a)
qed

lemma allNodes_sel: "allNodes P n \<longleftrightarrow> P n \<and> allChildren P (Children n)"
  by (cases n) simp

lemma allChildren_update:
  "allChildren P ch \<Longrightarrow> (\<And>n. v = Some n \<Longrightarrow> allNodes P n) \<Longrightarrow> allChildren P (AList.update k v ch)"
  unfolding allChildren_iff by (blast dest: in_update)

lemma allChildren_delete: "allChildren P ch \<Longrightarrow> allChildren P (AList.delete k ch)"
  unfolding allChildren_iff by (blast dest: in_delete)

lemma allChildren_lookup: "allChildren P ch \<Longrightarrow> map_of ch k = Some (Some n) \<Longrightarrow> allNodes P n"
  unfolding allChildren_iff by (blast dest: map_of_SomeD)

lemma isHidden_simp [simp]: "isHiddenFile p = Inr (HasPrefix (Base p) ''.'')"
  by (simp add: isHiddenFile_def)


lemma listLoop_hidden:
  "hiddenSkip w (Join dir (Name info)) \<Longrightarrow>
   listLoop rec w dir r (info # rest) ch im s = listLoop rec w dir r rest ch im s"
  by (auto simp: hiddenSkip_def Let_def)

lemma listLoop_nil_child:
  "\<not> hiddenSkip w (Join dir (Name info)) \<Longrightarrow> map_of ch (Name info) = Some None \<Longrightarrow>
   listLoop rec w dir r (info # rest) ch im s = Abort NilPanic s"
  by (auto simp: hiddenSkip_def Let_def)

lemma listLoop_old_ignored:
  "\<not> hiddenSkip w (Join dir (Name info)) \<Longrightarrow> map_of ch (Name info) = Some (Some child) \<Longrightarrow>
   ignored child \<Longrightarrow>
   listLoop rec w dir r (info # rest) ch im s = listLoop rec w dir r rest ch im s"
  by (auto simp: hiddenSkip_def Let_def)

lemma listLoop_old:
  "\<not> hiddenSkip w (Join dir (Name info)) \<Longrightarrow> map_of ch (Name info) = Some (Some child) \<Longrightarrow>
   \<not> ignored child \<Longrightarrow>
   listLoop rec w dir r (info # rest) ch im s =
     (case rec (Some child) s of
        Abort a s' \<Rightarrow> Abort a s'
      | Return rr s' \<Rightarrow> listLoop rec w dir r rest (AList.update (Name info) rr ch)
                          (AList.update (Name info) info im) s')"
  by (auto simp: hiddenSkip_def Let_def)

lemma listLoop_new_ignored:
  "\<not> hiddenSkip w (Join dir (Name info)) \<Longrightarrow> map_of ch (Name info) = None \<Longrightarrow>
   ignored (newChildOf w dir r info) \<Longrightarrow>
   listLoop rec w dir r (info # rest) ch im s =
     listLoop rec w dir r rest (AList.update (Name info) (Some (newChildOf w dir r info)) ch) im s"
  unfolding newChildOf_def by (auto simp: hiddenSkip_def Let_def)

lemma listLoop_new_cancelled:
  "\<not> hiddenSkip w (Join dir (Name info)) \<Longrightarrow> map_of ch (Name info) = None \<Longrightarrow>
   \<not> ignored (newChildOf w dir r info) \<Longrightarrow> cancelled s \<Longrightarrow>
   listLoop rec w dir r (info # rest) ch im s =
     Return (Inr (AList.update (Name info) (Some (newChildOf w dir r info)) ch)) s"
  unfolding newChildOf_def by (auto simp: hiddenSkip_def Let_def)

lemma listLoop_new:
  "\<not> hiddenSkip w (Join dir (Name info)) \<Longrightarrow> map_of ch (Name info) = None \<Longrightarrow>
   \<not> ignored (newChildOf w dir r info) \<Longrightarrow> \<not> cancelled s \<Longrightarrow>
   listLoop rec w dir r (info # rest) ch im s =
     (case rec (Some (newChildOf w dir r info))
             (forward w (Event Create (Join dir (Name info)) info) s) of
        Abort a s' \<Rightarrow> Abort a s'
      | Return rr s' \<Rightarrow>
          listLoop rec w dir r rest
            (AList.update (Name info)
               (Some (case rr of None \<Rightarrow> newChildOf w dir r info | Some c \<Rightarrow> c))
               (AList.update (Name info) (Some (newChildOf w dir r info)) ch))
            (AList.update (Name info) info im) s')"
  unfolding newChildOf_def by (auto simp: hiddenSkip_def Let_def)

declare listLoop.simps(2) [simp del]

lemma listLoop_rule:
  assumes inv: "I ch im s"
    and fin: "\<And>ch im s. I ch im s \<Longrightarrow> R (Return (Inl (ch, im)) s)"
    and nilp: "\<And>ch im s. I ch im s \<Longrightarrow> R (Abort NilPanic s)"
    and old: "\<And>info ch im s child. I ch im s \<Longrightarrow> info \<in> set infoList \<Longrightarrow>
                map_of ch (Name info) = Some (Some child) \<Longrightarrow> \<not> ignored child \<Longrightarrow>
                (case rec (Some child) s of
                   Abort a s' \<Rightarrow> R (Abort a s')
                 | Return rr s' \<Rightarrow> I (AList.update (Name info) rr ch) (AList.update (Name info) info im) s')"
    and newi: "\<And>info ch im s. I ch im s \<Longrightarrow> info \<in> set infoList \<Longrightarrow>
                map_of ch (Name info) = None \<Longrightarrow> \<not> hiddenSkip w (Join dir (Name info)) \<Longrightarrow>
                I (AList.update (Name info) (Some (newChildOf w dir r info)) ch) im s"
    and newc: "\<And>info ch im s. I ch im s \<Longrightarrow> info \<in> set infoList \<Longrightarrow>
                map_of ch (Name info) = None \<Longrightarrow> \<not> hiddenSkip w (Join dir (Name info)) \<Longrightarrow>
                \<not> ignored (newChildOf w dir r info) \<Longrightarrow> cancelled s \<Longrightarrow>
                R (Return (Inr (AList.update (Name info) (Some (newChildOf w dir r info)) ch)) s)"
    and new: "\<And>info ch im s. I ch im s \<Longrightarrow> info \<in> set infoList \<Longrightarrow>
                map_of ch (Name info) = None \<Longrightarrow> \<not> hiddenSkip w (Join dir (Name info)) \<Longrightarrow>
                \<not> ignored (newChildOf w dir r info) \<Longrightarrow> \<not> cancelled s \<Longrightarrow>
                (case rec (Some (newChildOf w dir r info))
                        (forward w (Event Create (Join dir (Name info)) info) s) of
                   Abort a s' \<Rightarrow> R (Abort a s')
                 | Return rr s' \<Rightarrow>
                     I (AList.update (Name info)
                          (Some (case rr of None \<Rightarrow> newChildOf w dir r info | Some c \<Rightarrow> c))
                          (AList.update (Name info) (Some (newChildOf w dir r info)) ch))
                       (AList.update (Name info) info im) s')"
  shows "R (listLoop rec w dir r infoList ch im s)"
  using inv old newi newc new
proof (induction infoList arbitrary: ch im s)
  case Nil
  then show ?case by (simp add: fin)
next
  case (Cons info rest)
  note IH = Cons.IH[OF _ Cons.prems(2) Cons.prems(3) Cons.prems(4) Cons.prems(5)]
  have IH': "I ch' im' s' \<Longrightarrow> R (listLoop rec w dir r rest ch' im' s')" for ch' im' s'
    by (rule IH) auto
  have mem: "info \<in> set (info # rest)" by simp
  show ?case
  proof (cases "hiddenSkip w (Join dir (Name info))")
    case True
    then show ?thesis using IH'[OF Cons.prems(1)] by (simp add: listLoop_hidden)
  next
    case nh: False
    show ?thesis
    proof (cases "map_of ch (Name info)")
      case None
      note step = Cons.prems(3)[OF Cons.prems(1) mem None nh]
      show ?thesis
      proof (cases "ignored (newChildOf w dir r info)")
        case True
        then show ?thesis using IH'[OF step] by (simp add: listLoop_new_ignored nh None)
      next
        case ni: False
        show ?thesis
        proof (cases "cancelled s")
          case True
          then show ?thesis using Cons.prems(4)[OF Cons.prems(1) mem None nh ni]
            by (simp add: listLoop_new_cancelled nh None ni)
        next
          case nc: False
          show ?thesis
            using Cons.prems(5)[OF Cons.prems(1) mem None nh ni nc] IH'
            by (simp add: listLoop_new nh None ni nc split: outcome.splits)
        qed
      qed
    next
      case (Some co)
      show ?thesis
      proof (cases co)
        case None
        with Some nh show ?thesis using nilp[OF Cons.prems(1)] by (simp add: listLoop_nil_child)
      next
        case (Some child)
        with \<open>map_of ch (Name info) = Some co\<close> have l: "map_of ch (Name info) = Some (Some child)" by simp
        show ?thesis
        proof (cases "ignored child")
          case True
          then show ?thesis using IH'[OF Cons.prems(1)] by (simp add: listLoop_old_ignored nh l)
        next
          case False
          then show ?thesis using Cons.prems(2)[OF Cons.prems(1) mem l False] IH'
            by (simp add: listLoop_old nh l split: outcome.splits)
        qed
      qed
    qed
  qed
qed

lemma examineLoop_rule:
  assumes inv: "I ch im s"
    and fin: "\<And>ch im s. I ch im s \<Longrightarrow> R (Return ch s)"
    and nilc: "\<And>k ch im s. I ch im s \<Longrightarrow> (k, None) \<in> set es \<Longrightarrow> I (AList.delete k ch) im s"
    and keep: "\<And>k c ch im s. I ch im s \<Longrightarrow> (k, Some c) \<in> set es \<Longrightarrow> map_of im k \<noteq> None \<Longrightarrow>
                (case rec (Some c) s of
                   Abort a s' \<Rightarrow> R (Abort a s')
                 | Return rr s' \<Rightarrow> I (AList.update k rr ch) (AList.delete k im) s')"
    and gonei: "\<And>k c ch im s. I ch im s \<Longrightarrow> (k, Some c) \<in> set es \<Longrightarrow> map_of im k = None \<Longrightarrow>
                ignored c \<Longrightarrow> I (AList.delete k ch) im s"
    and gonec: "\<And>k c ch im s. I ch im s \<Longrightarrow> (k, Some c) \<in> set es \<Longrightarrow> map_of im k = None \<Longrightarrow>
                \<not> ignored c \<Longrightarrow> cancelled s \<Longrightarrow> R (Return (AList.delete k ch) s)"
    and gone: "\<And>k c ch im s. I ch im s \<Longrightarrow> (k, Some c) \<in> set es \<Longrightarrow> map_of im k = None \<Longrightarrow>
                \<not> ignored c \<Longrightarrow> \<not> cancelled s \<Longrightarrow>
                I (AList.delete k ch) im (forward w (Event Remove (Path c) (Info c)) s)"
  shows "R (examineLoop rec w es ch im s)"
  using inv nilc keep gonei gonec gone
proof (induction es arbitrary: ch im s)
  case Nil
  then show ?case by (simp add: fin)
next
  case (Cons e rest)
  have IH: "I ch' im' s' \<Longrightarrow> R (examineLoop rec w rest ch' im' s')" for ch' im' s'
    by (rule Cons.IH[OF _ Cons.prems(2) Cons.prems(3) Cons.prems(4) Cons.prems(5) Cons.prems(6)]) auto
  obtain k co where e: "e = (k, co)" by (cases e)
  show ?case
  proof (cases co)
    case None
    then have "(k, None) \<in> set (e # rest)" using e by simp
    from IH[OF Cons.prems(2)[OF Cons.prems(1) this]] show ?thesis using e None by simp
  next
    case (Some c)
    then have mem: "(k, Some c) \<in> set (e # rest)" using e by simp
    show ?thesis
    proof (cases "map_of im k")
      case (Some i)
      then have "map_of im k \<noteq> None" by simp
      from Cons.prems(3)[OF Cons.prems(1) mem this] IH
      show ?thesis using e \<open>co = Some c\<close> Some by (simp split: outcome.splits)
    next
      case None
      show ?thesis
      proof (cases "ignored c")
        case True
        from IH[OF Cons.prems(4)[OF Cons.prems(1) mem None True]]
        show ?thesis using e \<open>co = Some c\<close> None True by (simp add: Let_def)
      next
        case ni: False
        show ?thesis
        proof (cases "cancelled s")
          case True
          from Cons.prems(5)[OF Cons.prems(1) mem None ni True]
          show ?thesis using e \<open>co = Some c\<close> None ni True by (simp add: Let_def)
        next
          case False
          from IH[OF Cons.prems(6)[OF Cons.prems(1) mem None ni False]]
          show ?thesis using e \<open>co = Some c\<close> None ni False by (simp add: Let_def)
        qed
      qed
    qed
  qed
qed

lemma keepsAllD: "keepsAll P rec \<Longrightarrow> allNodes P c \<Longrightarrow> rec (Some c) s = Return (Some r) s' \<Longrightarrow> allNodes P r"
  unfolding keepsAll_def by blast

lemma allNodes_newNode: "P (newNode path info r ig) \<Longrightarrow> allNodes P (newNode path info r ig)"
  by (simp add: newNode_def)

lemma listLoop_keepsAll:
  assumes rec: "keepsAll P rec" and new: "\<And>info. P (newChildOf w dir r info)"
    and ch: "allChildren P ch"
  shows "\<forall>ch'. childrenOf (listLoop rec w dir r infoList ch im s) = Some ch' \<longrightarrow> allChildren P ch'"
proof (rule listLoop_rule[where I = "\<lambda>ch im s. allChildren P ch"])
  show "allChildren P ch" by (rule ch)
next
  fix info ch im s child
  assume a: "allChildren P ch" "map_of ch (Name info) = Some (Some child)"
  have c: "allNodes P child" using allChildren_lookup a by blast
  show "case rec (Some child) s of
          Abort a s' \<Rightarrow> \<forall>ch'. childrenOf (Abort a s') = Some ch' \<longrightarrow> allChildren P ch'
        | Return rr s' \<Rightarrow> allChildren P (AList.update (Name info) rr ch)"
    using keepsAllD[OF rec c] by (auto split: outcome.splits intro!: allChildren_update[OF a(1)])
next
  fix info ch im s
  assume a: "allChildren P ch"
  have n: "allNodes P (newChildOf w dir r info)"
    using new[of info] unfolding newChildOf_def by (rule allNodes_newNode)
  show "allChildren P (AList.update (Name info) (Some (newChildOf w dir r info)) ch)"
    using n by (intro allChildren_update[OF a]) simp
  then show "\<forall>ch'. childrenOf (Return (Inr (AList.update (Name info) (Some (newChildOf w dir r info)) ch)) s) = Some ch' \<longrightarrow> allChildren P ch'"
    by simp
  show "case rec (Some (newChildOf w dir r info)) (forward w (Event Create (Join dir (Name info)) info) s) of
          Abort a s' \<Rightarrow> \<forall>ch'. childrenOf (Abort a s') = Some ch' \<longrightarrow> allChildren P ch'
        | Return rr s' \<Rightarrow>
            allChildren P (AList.update (Name info)
              (Some (case rr of None \<Rightarrow> newChildOf w dir r info | Some c \<Rightarrow> c))
              (AList.update (Name info) (Some (newChildOf w dir r info)) ch))"
  proof (cases "rec (Some (newChildOf w dir r info)) (forward w (Event Create (Join dir (Name info)) info) s)")
    case (Abort a s') then show ?thesis by simp
  next
    case (Return rr s')
    have "allNodes P (case rr of None \<Rightarrow> newChildOf w dir r info | Some c \<Rightarrow> c)"
      using keepsAllD[OF rec n] Return n by (cases rr) auto
    then have "allChildren P (AList.update (Name info)
              (Some (case rr of None \<Rightarrow> newChildOf w dir r info | Some c \<Rightarrow> c))
              (AList.update (Name info) (Some (newChildOf w dir r info)) ch))"
      by (intro allChildren_update[OF
            \<open>allChildren P (AList.update (Name info) (Some (newChildOf w dir r info)) ch)\<close>]) simp
    then show ?thesis using Return by simp
  qed
qed auto

lemma examineLoop_keepsAll:
  assumes rec: "keepsAll P rec" and es: "allChildren P es" and ch: "allChildren P ch"
  shows "\<forall>ch' s'. examineLoop rec w es ch im s = Return ch' s' \<longrightarrow> allChildren P ch'"
proof (rule examineLoop_rule[where I = "\<lambda>ch im s. allChildren P ch"])
  show "allChildren P ch" by (rule ch)
next
  fix k c ch im s
  assume a: "allChildren P ch" "(k, Some c) \<in> set es"
  have c: "allNodes P c" using es a(2) unfolding allChildren_iff by blast
  show "case rec (Some c) s of
          Abort a s' \<Rightarrow> \<forall>ch' s''. Abort a s' = Return ch' s'' \<longrightarrow> allChildren P ch'
        | Return rr s' \<Rightarrow> allChildren P (AList.update k rr ch)"
    using keepsAllD[OF rec c] by (auto split: outcome.splits intro!: allChildren_update[OF a(1)])
qed (auto intro: allChildren_delete)

lemma stablePD:
  assumes "stableP P" "P n" "\<not> ignored n"
  shows "P (setInfo n i)" "P (setChildren n ch)" "P (newNode path info (recursive n) ig)"
  using assms unfolding stableP_def by blast+

lemma allNodes_setChildren: "P (setChildren n ch) \<Longrightarrow> allChildren P ch \<Longrightarrow> allNodes P (setChildren n ch)"
  by (simp add: setChildren_def)

lemma allNodes_setInfo: "P (setInfo n i) \<Longrightarrow> allNodes P n \<Longrightarrow> allNodes P (setInfo n i)"
  by (cases n) (simp add: setInfo_def)

lemma flags_setInfo [simp]:
  "ignored (setInfo n i) = ignored n" "recursive (setInfo n i) = recursive n"
  "Path (setInfo n i) = Path n" "Children (setInfo n i) = Children n" "Info (setInfo n i) = i"
  by (simp_all add: setInfo_def)

lemma flags_setChildren [simp]:
  "ignored (setChildren n ch) = ignored n" "recursive (setChildren n ch) = recursive n"
  "Path (setChildren n ch) = Path n" "Children (setChildren n ch) = ch" "Info (setChildren n ch) = Info n"
  by (simp_all add: setChildren_def)

lemma pollDir_keepsAll:
  assumes rec: "keepsAll P rec" and st: "stableP P" and n: "allNodes P node" and ni: "\<not> ignored node"
    and run: "pollDir rec w os node s = Return (Some r) s'"
  shows "allNodes P r"
proof (cases "ReadDir os (Path node)")
  case (Inl err)
  with run n show ?thesis by (simp add: pollDir_def)
next
  case (Inr infoList)
  have Pn: "P node" and chn: "allChildren P (Children node)" using n by (simp_all add: allNodes_sel)
  have new: "\<And>info. P (newChildOf w (Path node) (recursive node) info)"
    unfolding newChildOf_def using stablePD(3)[OF st Pn ni] .
  note ll = listLoop_keepsAll[OF rec new chn, of infoList "[]" s, rule_format]
  have setc: "allChildren P ch \<Longrightarrow> allNodes P (setChildren node ch)" for ch
    using stablePD(2)[OF st Pn ni] by (rule allNodes_setChildren)
  show ?thesis
  proof (cases "listLoop rec w (Path node) (recursive node) infoList (Children node) [] s")
    case (Abort a s1)
    with run Inr show ?thesis by (simp add: pollDir_def)
  next
    case (Return res s1)
    show ?thesis
    proof (cases res)
      case (Inr ch)
      with Return ll have "allChildren P ch" by simp
      with run \<open>ReadDir os (Path node) = Inr infoList\<close> Return Inr setc show ?thesis
        by (auto simp: pollDir_def)
    next
      case (Inl p)
      obtain ch im where p: "p = (ch, im)" by (cases p)
      with Return ll Inl have c: "allChildren P ch" by simp
      note ex = examineLoop_keepsAll[OF rec c c, of w im s1, rule_format]
      from run \<open>ReadDir os (Path node) = Inr infoList\<close> Return Inl p
      obtain ch' where "examineLoop rec w ch ch im s1 = Return ch' s'" "r = setChildren node ch'"
        by (auto simp: pollDir_def split: outcome.splits)
      with ex setc show ?thesis by blast
    qed
  qed
qed

lemma compareInfo_cases:
  "compareInfo w node newInfo s = Inl s' \<or> compareInfo w node newInfo s = Inr s'
   \<Longrightarrow> s' = s \<or> (\<not> cancelled s \<and>
        (s' = forward w (Event Write (Path node) newInfo) s \<or>
         s' = forward w (Event Chmod (Path node) newInfo) s \<or>
         (\<not> cancelled (forward w (Event Write (Path node) newInfo) s) \<and>
          s' = forward w (Event Chmod (Path node) newInfo) (forward w (Event Write (Path node) newInfo) s))))"
  by (auto simp: compareInfo_def Let_def split: if_splits)

lemma pollBody_keepsAll:
  assumes rec: "keepsAll P rec" and st: "stableP P"
  shows "keepsAll P (pollBody rec w os)"
  unfolding keepsAll_def
proof (intro allI impI)
  fix np s r s'
  assume np: "\<forall>c. np = Some c \<longrightarrow> allNodes P c" and run0: "pollBody rec w os np s = Return (Some r) s'"
  then obtain c where c: "np = Some c" by (cases np) (auto simp: pollBody_def)
  with np run0 have n: "allNodes P c" and run: "pollBody rec w os (Some c) s = Return (Some r) s'"
    by auto
  show "allNodes P r"
  proof (cases "ignored c")
    case True
    with run n show ?thesis by (simp add: pollBody_def)
  next
    case ni: False
    show ?thesis
    proof (cases "Lstat os (Path c)")
      case (Inl err)
      with run ni show ?thesis by (simp add: pollBody_def split: if_splits)
    next
      case (Inr newInfo)
      have Pn: "P c" using n by (simp add: allNodes_sel)
      have n1: "allNodes P (setInfo c newInfo)"
        using stablePD(1)[OF st Pn ni] n by (rule allNodes_setInfo)
      show ?thesis
      proof (cases "compareInfo w c newInfo s")
        case (Inl s1)
        with run ni \<open>Lstat os (Path c) = Inr newInfo\<close> n show ?thesis by (simp add: pollBody_def)
      next
        case (Inr s1)
        show ?thesis
        proof (cases "\<not> IsDir newInfo \<or> \<not> recursive c")
          case True
          with run ni \<open>Lstat os (Path c) = Inr newInfo\<close> Inr n1 show ?thesis
            by (auto simp: pollBody_def Let_def)
        next
          case False
          with run ni \<open>Lstat os (Path c) = Inr newInfo\<close> Inr
          have "pollDir rec w os (setInfo c newInfo) s1 = Return (Some r) s'"
            by (auto simp: pollBody_def Let_def)
          from pollDir_keepsAll[OF rec st n1 _ this] ni show ?thesis by simp
        qed
      qed
    qed
  qed
qed

lemma pollNodeEvent_keepsAll: "stableP P \<Longrightarrow> keepsAll P (pollNodeEvent fuel w os)"
proof (induction fuel)
  case 0
  show ?case by (simp add: keepsAll_def)
next
  case (Suc n)
  then show ?case by (simp add: pollBody_keepsAll)
qed

lemma stableP_ignoredOk: "stableP (\<lambda>n. ignored n \<longrightarrow> Children n = [])"
  by (simp add: stableP_def newNode_def)


lemma keepsLoopD: "keepsLoop Q rec \<Longrightarrow> Q s \<Longrightarrow> Q (loopOf (rec x s))"
  unfolding keepsLoop_def by blast

lemma sendOkD: "sendOk w Q \<Longrightarrow> Q s \<Longrightarrow> \<not> cancelled s \<Longrightarrow> Q (forward w e s)"
  unfolding sendOk_def by blast

lemma listLoop_keepsLoop:
  assumes rec: "keepsLoop Q rec" and snd: "sendOk w Q" and q: "Q s"
  shows "Q (loopOf (listLoop rec w dir r infoList ch im s))"
proof (rule listLoop_rule[where I = "\<lambda>ch im s. Q s"])
  show "Q s" by (rule q)
next
  fix info ch im s child
  assume "Q s"
  then show "case rec (Some child) s of Abort a s' \<Rightarrow> Q (loopOf (Abort a s')) | Return rr s' \<Rightarrow> Q s'"
    using keepsLoopD[OF rec, of s "Some child"] by (auto split: outcome.splits)
next
  fix info ch im s
  assume "Q s" "\<not> cancelled s"
  then have "Q (forward w (Event Create (Join dir (Name info)) info) s)" by (rule sendOkD[OF snd])
  from keepsLoopD[OF rec this, of "Some (newChildOf w dir r info)"]
  show "case rec (Some (newChildOf w dir r info)) (forward w (Event Create (Join dir (Name info)) info) s) of
          Abort a s' \<Rightarrow> Q (loopOf (Abort a s')) | Return rr s' \<Rightarrow> Q s'"
    by (auto split: outcome.splits)
qed auto

lemma examineLoop_keepsLoop:
  assumes rec: "keepsLoop Q rec" and snd: "sendOk w Q" and q: "Q s"
  shows "Q (loopOf (examineLoop rec w es ch im s))"
proof (rule examineLoop_rule[where I = "\<lambda>ch im s. Q s"])
  show "Q s" by (rule q)
next
  fix k c ch im s
  assume "Q s"
  then show "case rec (Some c) s of Abort a s' \<Rightarrow> Q (loopOf (Abort a s')) | Return rr s' \<Rightarrow> Q s'"
    using keepsLoopD[OF rec, of s "Some c"] by (auto split: outcome.splits)
qed (auto intro: sendOkD[OF snd])

lemma compareInfo_keepsLoop:
  assumes snd: "sendOk w Q" and q: "Q s"
  shows "Q (case compareInfo w node newInfo s of Inl s' \<Rightarrow> s' | Inr s' \<Rightarrow> s')"
proof -
  obtain s' where s': "compareInfo w node newInfo s = Inl s' \<or> compareInfo w node newInfo s = Inr s'"
    by (cases "compareInfo w node newInfo s") auto
  from compareInfo_cases[OF this] have "Q s'"
    using q sendOkD[OF snd] by auto
  with s' show ?thesis by auto
qed

lemma pollDir_keepsLoop:
  assumes rec: "keepsLoop Q rec" and snd: "sendOk w Q" and q: "Q s"
  shows "Q (loopOf (pollDir rec w os node s))"
proof (cases "ReadDir os (Path node)")
  case (Inl err)
  with q show ?thesis by (simp add: pollDir_def)
next
  case (Inr infoList)
  note ll = listLoop_keepsLoop[OF rec snd q, of "Path node" "recursive node" infoList "Children node" "[]"]
  show ?thesis
  proof (cases "listLoop rec w (Path node) (recursive node) infoList (Children node) [] s")
    case (Abort a s1)
    with ll Inr show ?thesis by (simp add: pollDir_def)
  next
    case (Return res s1)
    with ll have q1: "Q s1" by simp
    show ?thesis
    proof (cases res)
      case (Inr ch)
      with Return q1 \<open>ReadDir os (Path node) = Inr infoList\<close> show ?thesis by (simp add: pollDir_def)
    next
      case (Inl p)
      obtain ch im where p: "p = (ch, im)" by (cases p)
      note ex = examineLoop_keepsLoop[OF rec snd q1, of ch ch im]
      show ?thesis using Return Inl p ex \<open>ReadDir os (Path node) = Inr infoList\<close>
        by (auto simp: pollDir_def split: outcome.splits)
    qed
  qed
qed

lemma pollBody_keepsLoop:
  assumes rec: "keepsLoop Q rec" and snd: "sendOk w Q"
  shows "keepsLoop Q (pollBody rec w os)"
  unfolding keepsLoop_def
proof (intro allI impI)
  fix np s
  assume q: "Q s"
  show "Q (loopOf (pollBody rec w os np s))"
  proof (cases np)
    case None
    with q show ?thesis by (simp add: pollBody_def)
  next
    case (Some c)
    show ?thesis
    proof (cases "ignored c")
      case True
      with q Some show ?thesis by (simp add: pollBody_def)
    next
      case ni: False
      show ?thesis
      proof (cases "Lstat os (Path c)")
        case (Inl err)
        with q Some ni sendOkD[OF snd q] show ?thesis by (simp add: pollBody_def)
      next
        case (Inr newInfo)
        note ci = compareInfo_keepsLoop[OF snd q, of c newInfo]
        show ?thesis
        proof (cases "compareInfo w c newInfo s")
          case (Inl s1)
          with ci Some ni Inr show ?thesis by (simp add: pollBody_def)
        next
          case (Inr s1)
          with ci have "Q s1" by simp
          from pollDir_keepsLoop[OF rec snd this] \<open>Q s1\<close>
          show ?thesis using Some ni \<open>Lstat os (Path c) = Inr newInfo\<close> Inr
            by (simp add: pollBody_def Let_def)
        qed
      qed
    qed
  qed
qed

lemma pollNodeEvent_keepsLoop: "sendOk w Q \<Longrightarrow> keepsLoop Q (pollNodeEvent fuel w os)"
proof (induction fuel)
  case 0
  show ?case by (simp add: keepsLoop_def)
next
  case (Suc n)
  then show ?case by (simp add: pollBody_keepsLoop)
qed

lemma rootsLoop_keepsLoop:
  assumes rec: "keepsLoop Q rec" and q: "Q s"
  shows "Q (loopOf (rootsLoop rec es trees s))"
  using q
proof (induction es arbitrary: trees s)
  case Nil
  then show ?case by simp
next
  case (Cons e rest)
  obtain k v where e: "e = (k, v)" by (cases e)
  show ?case using keepsLoopD[OF rec Cons.prems, of v] Cons.IH
    by (cases "rec v s") (auto simp: e)
qed

lemma pollEvents_keepsLoop:
  assumes snd: "sendOk w Q" and q: "Q s"
  shows "Q (loopOf (pollEvents fuel w os s))"
  using rootsLoop_keepsLoop[OF pollNodeEvent_keepsLoop[OF snd] q, of fuel os "roots w" "roots w"]
  by (auto simp: pollEvents_def split: outcome.splits)

lemma mkInfo_sel [simp]: "Name (mkInfo n m t) = n" "Mode (mkInfo n m t) = m" "ModTime (mkInfo n m t) = t"
  by (simp_all add: mkInfo_def)

lemma IsDir_dirMode [simp]: "IsDir (mkInfo n dirMode t)" "\<not> IsSymlink (mkInfo n dirMode t)"
  by (simp_all add: IsDir_def IsSymlink_def mkInfo_def dirMode_def ModeDir_def ModeSymlink_def)

lemma IsDir_fileMode [simp]: "\<not> IsDir (mkInfo n fileMode t)" "\<not> IsSymlink (mkInfo n fileMode t)"
  by (simp_all add: IsDir_def IsSymlink_def mkInfo_def fileMode_def ModeDir_def ModeSymlink_def)

lemma sendOk_capInv: "0 < maxEvents w \<Longrightarrow> sendOk w (capInv w)"
  by (auto simp: sendOk_def capInv_def forward_def Let_def)

lemma sendOk_frozen: "cancelled s0 \<Longrightarrow> sendOk w (\<lambda>s. s = s0)"
  by (simp add: sendOk_def)

lemma capInv_newCycle: "0 < maxEvents w \<Longrightarrow> capInv w newCycle"
  by (simp add: capInv_def newCycle_def)

text \<open>
  C1. With a cap \<open>N > 0\<close>, a cycle sends at most \<open>N\<close> events on the public channel,
  however the diff ends; the surviving event counted as number \<open>N + 1\<close> closes
  \<^verbatim>\<open>cancel\<close> and is not sent; and once \<^verbatim>\<open>cancel\<close> is closed the rest of the diff
  changes nothing in what was sent.
\<close>

theorem C1_event_cap:
  assumes "0 < maxEvents w"
  shows "int (length (sent (loopOf (pollCycle fuel w os)))) \<le> maxEvents w \<and>
         (\<forall>e (s::Loop). \<not> cancelled s \<and> numEvents s = maxEvents w \<and>
                (ops w = {} \<or> EventOp e \<in> ops w) \<and>
                shouldNotice w (Name (EventInfo e)) (EventPath e) \<longrightarrow>
                cancelled (forward w e s) \<and> sent (forward w e s) = sent s) \<and>
         (\<forall>s. cancelled s \<longrightarrow> loopOf (pollEvents fuel w os s) = s)"
proof (intro conjI allI impI)
  have "capInv w (loopOf (pollEvents fuel w os newCycle))"
    by (rule pollEvents_keepsLoop[OF sendOk_capInv[OF assms] capInv_newCycle[OF assms]])
  then show "int (length (sent (loopOf (pollCycle fuel w os)))) \<le> maxEvents w"
    by (simp add: capInv_def pollCycle_def)
next
  fix e and s :: Loop
  assume "\<not> cancelled s \<and> numEvents s = maxEvents w \<and>
          (ops w = {} \<or> EventOp e \<in> ops w) \<and> shouldNotice w (Name (EventInfo e)) (EventPath e)"
  then show "cancelled (forward w e s)" "sent (forward w e s) = sent s"
    using assms by (auto simp: forward_def Let_def)
next
  fix s :: Loop
  assume "cancelled s"
  then show "loopOf (pollEvents fuel w os s) = s"
    using pollEvents_keepsLoop[OF sendOk_frozen, where s = s and w = w and fuel = fuel and os = os] by simp
qed

theorem C1_event_cap_witness:
  "0 < maxEvents (exW\<lparr>maxEvents := 1\<rparr>) \<and>
   sent (loopOf (pollCycle 2 (exW\<lparr>maxEvents := 1\<rparr>) exOS2)) =
     [Event Write ''/r/a'' (mkInfo ''a'' fileMode 2)] \<and>
   int (length (sent (loopOf (pollCycle 2 (exW\<lparr>maxEvents := 1\<rparr>) exOS2)))) \<le> 1 \<and>
   cancelled (loopOf (pollCycle 2 (exW\<lparr>maxEvents := 1\<rparr>) exOS2)) \<and>
   length (sent (loopOf (pollCycle 2 exW exOS2))) = 2"
proof -
  have h: "0 < maxEvents (exW\<lparr>maxEvents := 1\<rparr>)" by simp
  have v: "loopOf (pollCycle 2 (exW\<lparr>maxEvents := 1\<rparr>) exOS2) =
     \<lparr>numEvents = 2, sent = [Event Write ''/r/a'' (mkInfo ''a'' fileMode 2)], cancelled = True,
       received = [Event Write ''/r/a'' (mkInfo ''a'' fileMode 2),
                   Event Write ''/r/b'' (mkInfo ''b'' fileMode 2)]\<rparr>"
    by code_simp
  have u: "length (sent (loopOf (pollCycle 2 exW exOS2))) = 2"
    by code_simp
  from C1_event_cap[OF h, of 2 exOS2] have
    "int (length (sent (loopOf (pollCycle 2 (exW\<lparr>maxEvents := 1\<rparr>) exOS2)))) \<le> maxEvents (exW\<lparr>maxEvents := 1\<rparr>)"
    by (rule conjunct1)
  then show ?thesis unfolding v u by simp
qed

lemma buildLoop_keeps:
  assumes rec: "\<And>p r n e. rec p r = Some (Some n, e) \<Longrightarrow> allNodes P n"
    and new: "\<And>info. P (newNode (Join dir (Name info)) info False (shouldIgnore w (Name info) (Join dir (Name info))))"
  shows "allChildren P cm \<Longrightarrow> buildLoop rec w dir r infoList cm = Some (Inr cm') \<Longrightarrow>
         allChildren P cm'"
proof (induction infoList arbitrary: cm)
  case Nil
  then show ?case by simp
next
  case (Cons info rest)
  let ?name = "Name info" and ?path = "Join dir (Name info)"
  let ?si = "shouldIgnore w ?name ?path"
  show ?case
  proof (cases "suppressed w ?name ?path (HasPrefix (Base ?path) ''.'')")
    case True
    with Cons show ?thesis by (simp add: Let_def)
  next
    case ns: False
    show ?thesis
    proof (cases r)
      case False
      let ?cm1 = "AList.update ?name (Some (newNode ?path info False ?si)) cm"
      have "allChildren P ?cm1"
        using allNodes_newNode[where P = P, OF new[of info]] by (intro allChildren_update[OF Cons.prems(1)]) simp
      moreover have "buildLoop rec w dir r rest ?cm1 = Some (Inr cm')"
        using Cons.prems(2) ns False by (simp add: Let_def)
      ultimately show ?thesis by (rule Cons.IH)
    next
      case True
      show ?thesis
      proof (cases ?si)
        case True
        with Cons.prems \<open>r\<close> ns Cons.IH show ?thesis by (simp add: Let_def)
      next
        case False
        show ?thesis
        proof (cases "rec ?path True")
          case None
          with Cons.prems(2) \<open>r\<close> ns False show ?thesis by (simp add: Let_def)
        next
          case (Some res)
          obtain child e where res: "res = (child, e)" by (cases res)
          have "allChildren P (AList.update ?name child cm)"
            using rec Some res by (intro allChildren_update[OF Cons.prems(1)]) auto
          moreover have "buildLoop rec w dir r rest (AList.update ?name child cm) = Some (Inr cm')"
            using Cons.prems(2) \<open>r\<close> ns False Some res by (simp add: Let_def)
          ultimately show ?thesis by (rule Cons.IH)
        qed
      qed
    qed
  qed
qed

lemma traverseTree_Suc:
  "traverseTree (Suc n) w os path r =
     (case Lstat os path of
        Inl err \<Rightarrow> Some (None, Some err)
      | Inr stat \<Rightarrow>
          if \<not> IsDir stat \<or> ignored (newNode path stat r (shouldIgnore w (Name stat) path))
          then Some (Some (newNode path stat r (shouldIgnore w (Name stat) path)), None)
          else case ReadDir os path of
                 Inl err \<Rightarrow> Some (Some (newNode path stat r (shouldIgnore w (Name stat) path)), Some err)
               | Inr infoList \<Rightarrow>
                   (case buildLoop (traverseTree n w os) w path r infoList [] of
                      None \<Rightarrow> None
                    | Some (Inl err) \<Rightarrow> Some (Some (newNode path stat r (shouldIgnore w (Name stat) path)), Some err)
                    | Some (Inr childMap) \<Rightarrow>
                        Some (Some (setChildren (newNode path stat r (shouldIgnore w (Name stat) path)) childMap), None)))"
  by (simp add: Let_def split: sum.splits)

lemma traverseTree_keeps:
  assumes new: "\<And>p i r g. P (newNode p i r g)"
    and setc: "\<And>p i r g ch. \<not> ignored (newNode p i r g) \<Longrightarrow> P (setChildren (newNode p i r g) ch)"
  shows "traverseTree fuel w os path r = Some (Some node, err) \<Longrightarrow> allNodes P node"
proof (induction fuel arbitrary: path r node err)
  case 0
  then show ?case by simp
next
  case (Suc n)
  show ?case
  proof (cases "Lstat os path")
    case (Inl e)
    with Suc.prems show ?thesis by (simp add: traverseTree_Suc)
  next
    case (Inr stat)
    let ?node = "newNode path stat r (shouldIgnore w (Name stat) path)"
    have n: "allNodes P ?node" by (rule allNodes_newNode[where P = P]) (rule new)
    show ?thesis
    proof (cases "\<not> IsDir stat \<or> ignored ?node")
      case True
      with Suc.prems Inr n show ?thesis by (simp add: traverseTree_Suc)
    next
      case False
      show ?thesis
      proof (cases "ReadDir os path")
        case (Inl e)
        with Suc.prems Inr False n show ?thesis by (simp add: traverseTree_Suc)
      next
        case rd: (Inr infoList)
        show ?thesis
        proof (cases "buildLoop (traverseTree n w os) w path r infoList []")
          case None
          with Suc.prems Inr False rd show ?thesis by (simp add: traverseTree_Suc)
        next
          case (Some res)
          show ?thesis
          proof (cases res)
            case (Inl e)
            with Suc.prems Inr False rd Some n show ?thesis by (simp add: traverseTree_Suc)
          next
            case (Inr cm)
            have "allChildren P cm"
            proof (rule buildLoop_keeps[where rec = "traverseTree n w os" and cm = "[]" and P = P])
              show "buildLoop (traverseTree n w os) w path r infoList [] = Some (Inr cm)"
                using Some Inr by simp
            qed (use Suc.IH new in auto)
            moreover have "node = setChildren ?node cm"
              using Suc.prems \<open>Lstat os path = Inr stat\<close> False rd Some Inr by (simp add: traverseTree_Suc)
            ultimately show ?thesis using setc[of path stat r _ cm] False
              by (simp add: allNodes_sel[of P "setChildren _ _"])
          qed
        qed
      qed
    qed
  qed
qed

lemma traverseTree_ignoredOk:
  "traverseTree fuel w os path r = Some (Some node, err) \<Longrightarrow> ignoredOk node"
  unfolding ignoredOk_def
  by (rule traverseTree_keeps) (auto simp: newNode_def)

lemma rootsLoop_keepsAll:
  assumes rec: "keepsAll P rec"
  shows "allChildren P es \<Longrightarrow> allChildren P trees \<Longrightarrow>
         rootsLoop rec es trees s = Return trees' s' \<Longrightarrow> allChildren P trees'"
proof (induction es arbitrary: trees s)
  case Nil
  then show ?case by simp
next
  case (Cons e rest)
  obtain k v where e: "e = (k, v)" by (cases e)
  have rest: "allChildren P rest" and v: "\<forall>c. v = Some c \<longrightarrow> allNodes P c"
    using Cons.prems(1) e by (cases v; simp)+
  show ?case
  proof (cases "rec v s")
    case (Abort a s1)
    with Cons.prems(3) e show ?thesis by simp
  next
    case (Return rr s1)
    have "allNodes P n" if "rr = Some n" for n
      using rec v Return that unfolding keepsAll_def by blast
    then have "allChildren P (AList.update k rr trees)"
      by (intro allChildren_update[OF Cons.prems(2)])
    moreover have "rootsLoop rec rest (AList.update k rr trees) s1 = Return trees' s'"
      using Cons.prems(3) e Return by simp
    ultimately show ?thesis using Cons.IH rest by blast
  qed
qed

lemma roots_polled:
  "rootsLoop rec (roots w) (roots w) s = Return trees s' \<Longrightarrow>
   roots (w\<lparr>fileTrees := map_option (\<lambda>old. trees) (fileTrees w)\<rparr>) = trees"
  by (cases "fileTrees w") (auto simp: roots_def)

lemma pollEvents_rootsOk:
  "rootsOk w \<Longrightarrow> pollEvents fuel w os s = Return w' s' \<Longrightarrow> rootsOk w'"
  unfolding rootsOk_def
  using rootsLoop_keepsAll[OF pollNodeEvent_keepsAll[OF stableP_ignoredOk], of "roots w" "roots w" fuel w os s]
  by (auto simp: pollEvents_def roots_polled split: outcome.splits)

lemma ignoredOk_setRecursive: "ignoredOk (setRecursive n r) = ignoredOk n"
  by (cases n) (simp add: ignoredOk_def setRecursive_def)

lemma AddPath_cases:
  assumes "AddPath fuel w os path0 r = Some (e, w')"
  shows "w' = w \<or> (\<exists>path fileNode. Abs os path0 = Inr path \<and>
           traverseTree fuel w os path r = Some (Some fileNode, None) \<and> e = None \<and>
           fileTrees w \<noteq> None \<and>
           w' = w\<lparr>fileTrees := Some (AList.update path (Some (setRecursive fileNode True)) (roots w))\<rparr>)"
proof (cases "Abs os path0")
  case (Inl err)
  with assms show ?thesis by (simp add: AddPath_def)
next
  case (Inr path)
  show ?thesis
  proof (cases "Lstat os path")
    case (Inl err)
    with assms Inr show ?thesis by (simp add: AddPath_def)
  next
    case st: (Inr stat)
    show ?thesis
    proof (cases "traverseTree fuel w os path r")
      case None
      with assms Inr st show ?thesis by (simp add: AddPath_def split: if_splits)
    next
      case (Some res)
      obtain fn er where res: "res = (fn, er)" by (cases res)
      show ?thesis using assms Inr st Some res
        by (cases fn; cases er; cases "fileTrees w") (auto simp: AddPath_def roots_def split: if_splits)
    qed
  qed
qed

lemma AddPath_rootsOk:
  assumes "rootsOk w" "AddPath fuel w os path0 r = Some (e, w')"
  shows "rootsOk w'"
proof -
  from AddPath_cases[OF assms(2)] show ?thesis
  proof (elim disjE exE conjE)
    assume "w' = w" with assms(1) show ?thesis by simp
  next
    fix path fileNode
    assume t: "traverseTree fuel w os path r = Some (Some fileNode, None)"
      and w': "w' = w\<lparr>fileTrees := Some (AList.update path (Some (setRecursive fileNode True)) (roots w))\<rparr>"
    have "ignoredOk (setRecursive fileNode True)"
      using traverseTree_ignoredOk[OF t] by (simp add: ignoredOk_setRecursive)
    then show ?thesis using assms(1) unfolding w' rootsOk_def ignoredOk_def
      by (auto simp: roots_def intro!: allChildren_update)
  qed
qed

lemma pollNodeEvent_ignored:
  "ignored node \<Longrightarrow> pollNodeEvent (Suc fuel) w os (Some node) s = Return (Some node) s"
  by (simp add: pollBody_def)

text \<open>
  C10. An ignored node has no children: \<open>newNode\<close> makes every node without children,
  the tree builder, \<open>AddPath\<close> and every diff keep the invariant, so it holds of every
  node of every root reachable from \<open>New\<close>; and the diff of an ignored node returns the
  node and the loop state as they are, whatever the file system is.
\<close>

theorem C10_ignored_nodes:
  "Children (newNode path info r ig) = [] \<and> ignoredOk (newNode path info r ig) \<and>
   rootsOk New \<and>
   (\<forall>node err. traverseTree fuel w os path r = Some (Some node, err) \<longrightarrow> ignoredOk node) \<and>
   (\<forall>e w'. rootsOk w \<and> AddPath fuel w os path r = Some (e, w') \<longrightarrow> rootsOk w') \<and>
   (\<forall>node s node' s'. ignoredOk node \<and> pollNodeEvent fuel w os (Some node) s = Return (Some node') s'
       \<longrightarrow> ignoredOk node') \<and>
   (\<forall>s w' s'. rootsOk w \<and> pollEvents fuel w os s = Return w' s' \<longrightarrow> rootsOk w') \<and>
   (\<forall>node. ignoredOk node \<and> ignored node \<longrightarrow> Children node = []) \<and>
   (\<forall>node os' s. ignored node \<longrightarrow>
       pollNodeEvent (Suc fuel) w os' (Some node) s = Return (Some node) s)"
proof (intro conjI allI impI)
  show "Children (newNode path info r ig) = []" by (simp add: newNode_def)
  show "ignoredOk (newNode path info r ig)" by (simp add: ignoredOk_def newNode_def)
  show "rootsOk New" by (simp add: rootsOk_def roots_def New_def)
next
  fix node err
  assume "traverseTree fuel w os path r = Some (Some node, err)"
  then show "ignoredOk node" by (rule traverseTree_ignoredOk)
next
  fix e w'
  assume "rootsOk w \<and> AddPath fuel w os path r = Some (e, w')"
  then show "rootsOk w'" using AddPath_rootsOk by blast
next
  fix node s node' s'
  assume "ignoredOk node \<and> pollNodeEvent fuel w os (Some node) s = Return (Some node') s'"
  then show "ignoredOk node'"
    using keepsAllD[OF pollNodeEvent_keepsAll[OF stableP_ignoredOk]]
    unfolding ignoredOk_def by blast
next
  fix s w' s'
  assume "rootsOk w \<and> pollEvents fuel w os s = Return w' s'"
  then show "rootsOk w'" using pollEvents_rootsOk by blast
next
  fix node
  assume "ignoredOk node \<and> ignored node"
  then show "Children node = []" by (simp add: ignoredOk_def allNodes_sel)
next
  fix node os' s
  assume "ignored node"
  then show "pollNodeEvent (Suc fuel) w os' (Some node) s = Return (Some node) s"
    by (rule pollNodeEvent_ignored)
qed

lemma IsSymlink_linkMode [simp]: "IsSymlink (mkInfo n linkMode t)"
  by (simp add: IsSymlink_def mkInfo_def linkMode_def ModeSymlink_def)

theorem C10_ignored_nodes_witness:
  "ignored exLink \<and> ignoredOk exLink \<and> Children exLink = [] \<and>
   pollNodeEvent (Suc 0) exW exOS2 (Some exLink) newCycle = Return (Some exLink) newCycle \<and>
   rootsOk exW \<and>
   (\<exists>w' s'. pollEvents 2 exW exOS2 newCycle = Return w' s' \<and> rootsOk w')"
proof -
  note c0 = C10_ignored_nodes[where path = "''/r/l''" and info = "mkInfo ''l'' linkMode 1"
      and r = True and ig = False and fuel = 0 and w = exW and os = exOS2]
  note c2 = C10_ignored_nodes[where path = "''/r/l''" and info = "mkInfo ''l'' linkMode 1"
      and r = True and ig = False and fuel = 2 and w = exW and os = exOS2]
  have i: "ignored exLink" by (simp add: exLink_def newNode_def)
  have k: "ignoredOk exLink" "Children exLink = []" using c0 unfolding exLink_def by blast+
  have p0: "pollNodeEvent (Suc 0) exW exOS2 (Some exLink) newCycle = Return (Some exLink) newCycle"
    using c0 i by blast
  have r: "rootsOk exW"
    by (simp add: rootsOk_def roots_def exW_def exRoot_def New_def)
  have "returns (pollEvents 2 exW exOS2 newCycle)" by code_simp
  then obtain w' s' where p: "pollEvents 2 exW exOS2 newCycle = Return w' s'"
    by (cases "pollEvents 2 exW exOS2 newCycle") simp_all
  have "rootsOk w'" using c2 r p by blast
  with i k p0 r p show ?thesis by blast
qed

















text \<open>
  C7, as stated, fails at two inputs. The root \<open>/r\<close> of \<open>exW\<close> has been deleted:
  \<open>AddPath\<close> of the path that is already a root returns the error of \<^verbatim>\<open>os.Lstat\<close>, not
  \<^verbatim>\<open>nil\<close>. The directory \<open>/u\<close> is no symbolic link, no root, not excluded and not
  hidden, but cannot be listed: \<open>AddPath\<close> returns the error of the tree builder and stores
  no root.
\<close>

theorem C7_counterexample:
  "map_of (roots exW) ''/r'' \<noteq> None \<and>
   map_option (\<lambda>(e, w). (e, fileTrees w)) (AddPath 2 exW exOSgone ''/r'' True) =
     Some (Some (OSError ''no such file or directory''), fileTrees exW) \<and>
   Lstat exOSgone ''/u'' = Inr (mkInfo ''u'' dirMode 1) \<and>
   \<not> IsSymlink (mkInfo ''u'' dirMode 1) \<and>
   map_of (roots New) ''/u'' = None \<and>
   \<not> suppressed New ''u'' ''/u'' (HasPrefix (Base ''/u'') ''.'') \<and>
   map_option (\<lambda>(e, w). (e, fileTrees w)) (AddPath 2 New exOSgone ''/u'' True) =
     Some (Some (OSError ''permission denied''), Some [])"
  by (simp add: AddPath_def exOSgone_def exW_def New_def roots_def suppressed_def shouldIgnore_def
      numeral_2_eq_2 newNode_def Let_def)

text \<open>
  C7, amended. \<open>AddPath\<close> normalises its argument; an error of the normalisation or of the
  stat of the path is returned. Otherwise it returns \<open>ErrWatchSymlink\<close> when the path is a
  symbolic link, and \<^verbatim>\<open>nil\<close> with the watcher unchanged when the path is already a root,
  matches an exclude filter or is hidden while \<open>ignoreHidden\<close> is set. Otherwise it calls the
  tree builder: an error of the builder is returned; a tree built without error is stored
  under the path, with \<open>recursive = true\<close>, and the other roots stay, when the map of the
  roots is not \<^verbatim>\<open>nil\<close>. When it is \<^verbatim>\<open>nil\<close>, as \<^verbatim>\<open>Close\<close> leaves it, the assignment
  \<^verbatim>\<open>w.fileTrees[path] = fileNode\<close> panics and nothing is stored. Whenever an error is
  returned, or the call panics, the watcher is unchanged.
\<close>

theorem C7_add_path:
  "(\<forall>err. Abs os arg = Inl err \<longrightarrow> AddPath fuel w os arg r = Some (Some err, w)) \<and>
   (\<forall>path err. Abs os arg = Inr path \<and> Lstat os path = Inl err \<longrightarrow>
      AddPath fuel w os arg r = Some (Some err, w)) \<and>
   (\<forall>path stat. Abs os arg = Inr path \<and> Lstat os path = Inr stat \<and> IsSymlink stat \<longrightarrow>
      AddPath fuel w os arg r = Some (Some ErrWatchSymlink, w)) \<and>
   (\<forall>path stat. Abs os arg = Inr path \<and> Lstat os path = Inr stat \<and> \<not> IsSymlink stat \<and>
      (map_of (roots w) path \<noteq> None \<or>
       suppressed w (Name stat) path (HasPrefix (Base path) ''.'')) \<longrightarrow>
      AddPath fuel w os arg r = Some (None, w)) \<and>
   (\<forall>path stat node trees. Abs os arg = Inr path \<and> Lstat os path = Inr stat \<and> \<not> IsSymlink stat \<and>
      fileTrees w = Some trees \<and> map_of trees path = None \<and>
      \<not> suppressed w (Name stat) path (HasPrefix (Base path) ''.'') \<and>
      traverseTree fuel w os path r = Some (Some node, None) \<longrightarrow>
      (\<exists>trees'. AddPath fuel w os arg r = Some (None, w\<lparr>fileTrees := Some trees'\<rparr>) \<and>
            map_of trees' = (map_of trees)(path \<mapsto> Some (setRecursive node True)))) \<and>
   (\<forall>path stat node. Abs os arg = Inr path \<and> Lstat os path = Inr stat \<and> \<not> IsSymlink stat \<and>
      fileTrees w = None \<and>
      \<not> suppressed w (Name stat) path (HasPrefix (Base path) ''.'') \<and>
      traverseTree fuel w os path r = Some (Some node, None) \<longrightarrow>
      AddPath fuel w os arg r = Some (Some NilMapPanic, w)) \<and>
   (\<forall>path stat node err. Abs os arg = Inr path \<and> Lstat os path = Inr stat \<and> \<not> IsSymlink stat \<and>
      map_of (roots w) path = None \<and>
      \<not> suppressed w (Name stat) path (HasPrefix (Base path) ''.'') \<and>
      traverseTree fuel w os path r = Some (Some node, Some err) \<longrightarrow>
      AddPath fuel w os arg r = Some (Some err, w)) \<and>
   (\<forall>e w'. AddPath fuel w os arg r = Some (Some e, w') \<longrightarrow> w' = w)"
proof (intro conjI allI impI)
  fix e w'
  assume "AddPath fuel w os arg r = Some (Some e, w')"
  from AddPath_cases[OF this] show "w' = w" by auto
qed (auto simp: AddPath_def roots_def update_conv')

theorem C7_add_path_witness:
  "AddPath 2 New exOSgone ''/l'' True = Some (Some ErrWatchSymlink, New) \<and>
   AddPath 2 exW exOS ''/r'' True = Some (None, exW) \<and>
   AddPath 2 (New\<lparr>ignoreHidden := True\<rparr>) exOSgone ''/.h'' False =
     Some (None, New\<lparr>ignoreHidden := True\<rparr>) \<and>
   AddPath 2 New exOSgone ''/gone'' True = Some (Some (OSError ''no such file or directory''), New) \<and>
   (\<exists>trees'. AddPath 2 New exOS ''/r'' True = Some (None, New\<lparr>fileTrees := Some trees'\<rparr>) \<and>
         map_of trees' ''/r'' = Some (Some exRoot)) \<and>
   fileTrees (Close (snd (Start New 1))) = None \<and>
   AddPath 2 (Close (snd (Start New 1))) exOS ''/r'' True =
     Some (Some NilMapPanic, Close (snd (Start New 1))) \<and>
   AddPath 2 New exOSgone ''/u'' True = Some (Some (OSError ''permission denied''), New)"
proof -
  have 1: "AddPath 2 New exOSgone ''/l'' True = Some (Some ErrWatchSymlink, New)"
    using C7_add_path[where os = exOSgone and arg = "''/l''" and fuel = 2 and w = New and r = True]
    by (simp add: exOSgone_def)
  have 2: "AddPath 2 exW exOS ''/r'' True = Some (None, exW)"
    using C7_add_path[where os = exOS and arg = "''/r''" and fuel = 2 and w = exW and r = True]
    by (simp add: exOS_def exW_def roots_def)
  have 3: "AddPath 2 (New\<lparr>ignoreHidden := True\<rparr>) exOSgone ''/.h'' False =
     Some (None, New\<lparr>ignoreHidden := True\<rparr>)"
    using C7_add_path[where os = exOSgone and arg = "''/.h''" and fuel = 2
        and w = "New\<lparr>ignoreHidden := True\<rparr>" and r = False]
    by (simp add: exOSgone_def suppressed_def Base_def HasPrefix_def)
  have 4: "AddPath 2 New exOSgone ''/gone'' True = Some (Some (OSError ''no such file or directory''), New)"
    using C7_add_path[where os = exOSgone and arg = "''/gone''" and fuel = 2 and w = New and r = True]
    by (simp add: exOSgone_def)
  have t: "traverseTree 2 New exOS ''/r'' True = Some (Some exRoot, None)"
    by code_simp
  have h5: "Abs exOS ''/r'' = Inr ''/r'' \<and> Lstat exOS ''/r'' = Inr (mkInfo ''r'' dirMode 1) \<and>
      \<not> IsSymlink (mkInfo ''r'' dirMode 1) \<and> fileTrees New = Some [] \<and>
      map_of ([] :: (string \<times> FileNode option) list) ''/r'' = None \<and>
      \<not> suppressed New (Name (mkInfo ''r'' dirMode 1)) ''/r'' (HasPrefix (Base ''/r'') ''.'') \<and>
      traverseTree 2 New exOS ''/r'' True = Some (Some exRoot, None)"
    by code_simp
  have sr: "setRecursive exRoot True = exRoot" by (simp add: setRecursive_def exRoot_def)
  have 5: "\<exists>trees'. AddPath 2 New exOS ''/r'' True = Some (None, New\<lparr>fileTrees := Some trees'\<rparr>) \<and>
         map_of trees' ''/r'' = Some (Some exRoot)"
  proof -
    note c5 = C7_add_path[where os = exOS and arg = "''/r''" and fuel = 2 and w = New and r = True,
        THEN conjunct2, THEN conjunct2, THEN conjunct2, THEN conjunct2, THEN conjunct1, rule_format]
    from c5[OF h5]
    obtain trees' where "AddPath 2 New exOS ''/r'' True = Some (None, New\<lparr>fileTrees := Some trees'\<rparr>)"
      and "map_of trees' = (map_of [])(''/r'' \<mapsto> Some (setRecursive exRoot True))"
      by blast
    then show ?thesis by (auto simp: sr)
  qed
  have c: "fileTrees (Close (snd (Start New 1))) = None"
    by (simp add: Close_def Start_def New_def)
  have h6: "Abs exOS ''/r'' = Inr ''/r'' \<and> Lstat exOS ''/r'' = Inr (mkInfo ''r'' dirMode 1) \<and>
      \<not> IsSymlink (mkInfo ''r'' dirMode 1) \<and> fileTrees (Close (snd (Start New 1))) = None \<and>
      \<not> suppressed (Close (snd (Start New 1))) (Name (mkInfo ''r'' dirMode 1)) ''/r''
           (HasPrefix (Base ''/r'') ''.'') \<and>
      traverseTree 2 (Close (snd (Start New 1))) exOS ''/r'' True = Some (Some exRoot, None)"
    by code_simp
  have 6: "AddPath 2 (Close (snd (Start New 1))) exOS ''/r'' True =
     Some (Some NilMapPanic, Close (snd (Start New 1)))"
    by (rule C7_add_path[where os = exOS and arg = "''/r''" and fuel = 2
        and w = "Close (snd (Start New 1))" and r = True,
        THEN conjunct2, THEN conjunct2, THEN conjunct2, THEN conjunct2, THEN conjunct2,
        THEN conjunct1, rule_format, OF h6])
  have h7: "Abs exOSgone ''/u'' = Inr ''/u'' \<and> Lstat exOSgone ''/u'' = Inr (mkInfo ''u'' dirMode 1) \<and>
      \<not> IsSymlink (mkInfo ''u'' dirMode 1) \<and> map_of (roots New) ''/u'' = None \<and>
      \<not> suppressed New (Name (mkInfo ''u'' dirMode 1)) ''/u'' (HasPrefix (Base ''/u'') ''.'') \<and>
      traverseTree 2 New exOSgone ''/u'' True =
        Some (Some (newNode ''/u'' (mkInfo ''u'' dirMode 1) True False), Some (OSError ''permission denied''))"
    by code_simp
  have 7: "AddPath 2 New exOSgone ''/u'' True = Some (Some (OSError ''permission denied''), New)"
    by (rule C7_add_path[where os = exOSgone and arg = "''/u''" and fuel = 2 and w = New and r = True,
        THEN conjunct2, THEN conjunct2, THEN conjunct2, THEN conjunct2, THEN conjunct2,
        THEN conjunct2, THEN conjunct1, rule_format, OF h7])
  from 1 2 3 4 5 c 6 7 show ?thesis by blast
qed

text \<open>
  C2 at a concrete input. The cap is 1; the root \<open>/a\<close> has a new modification time and a
  new mode, the root \<open>/b\<close> has been deleted. The \<open>Write\<close> of \<open>/a\<close> is sent, its
  \<open>Chmod\<close> exceeds the cap and closes \<^verbatim>\<open>cancel\<close>; the diff of \<open>/b\<close> then sends its
  \<open>Remove\<close> outside a \<^verbatim>\<open>select\<close> and never returns. Had \<open>/b\<close> been written instead
  of deleted, the \<^verbatim>\<open>select\<close> around its \<open>Write\<close> would have returned the node.
\<close>

theorem C2_remove_blocks_after_cancel:
  "stopOf (pollCycle 1 exW2 exOSrace) = Some Blocked \<and>
   loopOf (pollCycle 1 exW2 exOSrace) =
     \<lparr>numEvents = 2, sent = [Event Write ''/a'' (mkInfo ''a'' execMode 2)], cancelled = True,
       received = [Event Write ''/a'' (mkInfo ''a'' execMode 2),
                   Event Chmod ''/a'' (mkInfo ''a'' execMode 2)]\<rparr> \<and>
   stopOf (pollCycle 1 exW2 exOSrace') = None \<and>
   loopOf (pollCycle 1 exW2 exOSrace') =
     \<lparr>numEvents = 2, sent = [Event Write ''/a'' (mkInfo ''a'' execMode 2)], cancelled = True,
       received = [Event Write ''/a'' (mkInfo ''a'' execMode 2),
                   Event Chmod ''/a'' (mkInfo ''a'' execMode 2)]\<rparr>"
  by code_simp























end
